theory Spec2Isabelle
  imports Main "HOL-Library.Word" "HOL-Library.Sublist"
begin

section \<open>Strings and bytes\<close>

text \<open>
  A JavaScript string is a sequence of 16-bit UTF-16 code units; the body of an HTTP
  response is read as chunks of bytes.  ASCII literals of the source are written with
  \<open>js\<close>; the Chinese literals are given by their code units.
\<close>

type_synonym jsstring = "16 word list"
type_synonym bytes = "8 word list"

definition js :: "string \<Rightarrow> jsstring" where
  "js s = map of_char s"

text \<open>
  \<open>String.prototype.trim\<close> removes the ECMAScript WhiteSpace and LineTerminator code
  units from both ends.
\<close>

definition is_space :: "16 word \<Rightarrow> bool" where
  "is_space c \<longleftrightarrow>
     c = 0x09 \<or> c = 0x0A \<or> c = 0x0B \<or> c = 0x0C \<or> c = 0x0D \<or> c = 0x20 \<or> c = 0xA0 \<or>
     c = 0x1680 \<or> (0x2000 \<le> c \<and> c \<le> 0x200A) \<or> c = 0x2028 \<or> c = 0x2029 \<or>
     c = 0x202F \<or> c = 0x205F \<or> c = 0x3000 \<or> c = 0xFEFF"

definition trim :: "jsstring \<Rightarrow> jsstring" where
  "trim s = rev (dropWhile is_space (rev (dropWhile is_space s)))"

section \<open>The code-block extractor (\<open>renderMessage\<close>)\<close>

text \<open>
  \<open>renderMessage\<close> runs the regular expression
  \<^verbatim>\<open>/```(\w+)?\n([\s\S]*?)```/g\<close> over the content with \<open>exec\<close> in a loop.  The
  pieces it pushes are a markdown element for plain text and a clickable preview that
  carries the language and the code of a block; the element keys and the click handler
  are left out.
\<close>

datatype segment = TextSpan jsstring | CodeBlockRef jsstring jsstring

definition fence :: jsstring where
  "fence = [0x60, 0x60, 0x60]"

text \<open>The class \<^verbatim>\<open>\w\<close>: ASCII letters, digits and the underscore.\<close>

definition is_word :: "16 word \<Rightarrow> bool" where
  "is_word c \<longleftrightarrow>
     (0x30 \<le> c \<and> c \<le> 0x39) \<or> (0x41 \<le> c \<and> c \<le> 0x5A) \<or> c = 0x5F \<or> (0x61 \<le> c \<and> c \<le> 0x7A)"

text \<open>
  The lazy group \<^verbatim>\<open>([\s\S]*?)```\<close> stops at the first closing fence: the result is the
  text before it and the text after it.
\<close>

fun find_close :: "jsstring \<Rightarrow> (jsstring \<times> jsstring) option" where
  "find_close [] = None"
| "find_close (c # cs) =
     (if prefix fence (c # cs) then Some ([], drop 3 (c # cs))
      else (case find_close cs of
              None \<Rightarrow> None
            | Some (body, rest) \<Rightarrow> Some (c # body, rest)))"

text \<open>
  A match of the whole expression at the start of \<open>s\<close>: the fence, the greedy optional
  tag, a newline, the lazy body and the closing fence.  The tag is greedy, and a shorter
  tag would be followed by a word character instead of the newline, so backtracking
  finds no other match.  The result is group 1 (absent when no tag matched), group 2
  and the text after the match.
\<close>

definition match_at :: "jsstring \<Rightarrow> (jsstring option \<times> jsstring \<times> jsstring) option" where
  "match_at s =
     (if prefix fence s then
        (let s1 = drop 3 s; w = takeWhile is_word s1 in
         (case dropWhile is_word s1 of
            [] \<Rightarrow> None
          | c # s3 \<Rightarrow>
              if c = 0x0A then
                (case find_close s3 of
                   None \<Rightarrow> None
                 | Some (body, rest) \<Rightarrow> Some (if w = [] then None else Some w, body, rest))
              else None))
      else None)"

text \<open>
  \<open>codeBlockRegex.exec\<close> on the text from \<open>lastIndex\<close> on: the leftmost position with a
  match.  The result is the text between \<open>lastIndex\<close> and \<open>match.index\<close>, the two groups
  and the text from the new \<open>lastIndex\<close> on.
\<close>

fun exec :: "jsstring \<Rightarrow> (jsstring \<times> jsstring option \<times> jsstring \<times> jsstring) option" where
  "exec [] = None"
| "exec (c # cs) =
     (case match_at (c # cs) of
        Some (lang, body, rest) \<Rightarrow> Some ([], lang, body, rest)
      | None \<Rightarrow>
          (case exec cs of
             None \<Rightarrow> None
           | Some (pre, lang, body, rest) \<Rightarrow> Some (c # pre, lang, body, rest)))"

lemma find_close_shorter: "find_close s = Some (body, rest) \<Longrightarrow> length rest < length s"
proof (induction s arbitrary: body)
  case Nil
  then show ?case by simp
next
  case (Cons c cs)
  show ?case
  proof (cases "prefix fence (c # cs)")
    case True
    with Cons.prems have "rest = drop 3 (c # cs)" by simp
    then show ?thesis by simp
  next
    case False
    with Cons.prems obtain b where "find_close cs = Some (b, rest)"
      by (auto split: option.splits)
    from Cons.IH [OF this] show ?thesis by simp
  qed
qed

lemma match_at_shorter: "match_at s = Some (lang, body, rest) \<Longrightarrow> length rest < length s"
proof -
  assume m: "match_at s = Some (lang, body, rest)"
  then obtain c s3 where d: "dropWhile is_word (drop 3 s) = c # s3"
    and f: "find_close s3 = Some (body, rest)"
    by (auto simp: match_at_def Let_def split: if_splits list.splits option.splits)
  have "length s3 < length (dropWhile is_word (drop 3 s))" using d by simp
  also have "\<dots> \<le> length (drop 3 s)" by (rule length_dropWhile_le)
  also have "\<dots> \<le> length s" by simp
  finally show ?thesis using find_close_shorter [OF f] by simp
qed

lemma exec_shorter: "exec s = Some (pre, lang, body, rest) \<Longrightarrow> length rest < length s"
proof (induction s arbitrary: pre)
  case Nil
  then show ?case by simp
next
  case (Cons c cs)
  show ?case
  proof (cases "match_at (c # cs)")
    case (Some m)
    with Cons.prems have "match_at (c # cs) = Some (lang, body, rest)"
      by (cases m) auto
    then show ?thesis by (rule match_at_shorter)
  next
    case None
    with Cons.prems obtain p where "exec cs = Some (p, lang, body, rest)"
      by (auto split: option.splits)
    from Cons.IH [OF this] show ?thesis by simp
  qed
qed

text \<open>
  The loop of \<open>renderMessage\<close>, on the content from \<open>lastIndex\<close> on.  Text before a match
  is pushed when \<open>match.index > lastIndex\<close>, the rest of the content when
  \<open>lastIndex < content.length\<close>.
\<close>

function render_from :: "jsstring \<Rightarrow> segment list" where
  "render_from s =
     (case exec s of
        None \<Rightarrow> (if s \<noteq> [] then [TextSpan s] else [])
      | Some (pre, lang, body, rest) \<Rightarrow>
          (if pre \<noteq> [] then [TextSpan pre] else []) @
          [CodeBlockRef (case lang of None \<Rightarrow> js ''plaintext'' | Some l \<Rightarrow> l) (trim body)] @
          render_from rest)"
  by pat_completeness auto
termination
  by (relation "measure length") (auto dest: exec_shorter)

definition renderMessage :: "jsstring \<Rightarrow> segment list" where
  "renderMessage content = render_from content"

section \<open>UTF-8 and UTF-16\<close>

text \<open>
  \<open>new TextDecoder().decode(value)\<close>: the UTF-8 decoder of the Encoding Standard in
  replacement mode, started afresh for the chunk and flushed at its end.  A leading byte
  order mark is dropped; an ill-formed or unfinished sequence decodes to U+FFFD, and the
  byte that broke a sequence is decoded again on its own.
\<close>

datatype utf8_state =
  Start
| Need nat nat "8 word" "8 word"  \<comment> \<open>code point so far, bytes needed, lower and upper boundary\<close>

function utf8_decode :: "utf8_state \<Rightarrow> bytes \<Rightarrow> nat list" where
  "utf8_decode Start [] = []"
| "utf8_decode (Need cp n lo hi) [] = [0xFFFD]"
| "utf8_decode Start (b # bs) =
     (if b \<le> 0x7F then unat b # utf8_decode Start bs
      else if 0xC2 \<le> b \<and> b \<le> 0xDF then
        utf8_decode (Need (unat b mod 32) 1 0x80 0xBF) bs
      else if 0xE0 \<le> b \<and> b \<le> 0xEF then
        utf8_decode (Need (unat b mod 16) 2 (if b = 0xE0 then 0xA0 else 0x80)
                       (if b = 0xED then 0x9F else 0xBF)) bs
      else if 0xF0 \<le> b \<and> b \<le> 0xF4 then
        utf8_decode (Need (unat b mod 8) 3 (if b = 0xF0 then 0x90 else 0x80)
                       (if b = 0xF4 then 0x8F else 0xBF)) bs
      else 0xFFFD # utf8_decode Start bs)"
| "utf8_decode (Need cp n lo hi) (b # bs) =
     (if b < lo \<or> hi < b then 0xFFFD # utf8_decode Start (b # bs)
      else if n \<le> 1 then (cp * 64 + unat b mod 64) # utf8_decode Start bs
      else utf8_decode (Need (cp * 64 + unat b mod 64) (n - 1) 0x80 0xBF) bs)"
  by pat_completeness auto
termination
  by (relation "measure (\<lambda>(st, bs). 2 * length bs + (case st of Start \<Rightarrow> 0 | Need _ _ _ _ \<Rightarrow> 1))")
     auto

text \<open>A code point as UTF-16 code units: one unit, or a surrogate pair above U+FFFF.\<close>

definition utf16 :: "nat \<Rightarrow> jsstring" where
  "utf16 cp =
     (if cp < 0x10000 then [of_nat cp]
      else [of_nat (0xD800 + (cp - 0x10000) div 0x400),
            of_nat (0xDC00 + (cp - 0x10000) mod 0x400)])"

definition strip_bom :: "bytes \<Rightarrow> bytes" where
  "strip_bom bs = (if prefix [0xEF, 0xBB, 0xBF] bs then drop 3 bs else bs)"

definition TextDecoder_decode :: "bytes \<Rightarrow> jsstring" where
  "TextDecoder_decode bs = concat (map utf16 (utf8_decode Start (strip_bom bs)))"

text \<open>
  The bytes \<open>res.write\<close> sends for a string: its code points in UTF-8, a surrogate
  pair as one code point, a lone surrogate as U+FFFD.
\<close>

definition is_high :: "16 word \<Rightarrow> bool" where
  "is_high c \<longleftrightarrow> 0xD800 \<le> c \<and> c \<le> 0xDBFF"

definition is_low :: "16 word \<Rightarrow> bool" where
  "is_low c \<longleftrightarrow> 0xDC00 \<le> c \<and> c \<le> 0xDFFF"

fun code_points :: "jsstring \<Rightarrow> nat list" where
  "code_points [] = []"
| "code_points [c] = [if is_high c \<or> is_low c then 0xFFFD else unat c]"
| "code_points (c # d # cs) =
     (if is_high c \<and> is_low d then
        (0x10000 + (unat c - 0xD800) * 0x400 + (unat d - 0xDC00)) # code_points cs
      else (if is_high c \<or> is_low c then 0xFFFD else unat c) # code_points (d # cs))"

definition utf8 :: "nat \<Rightarrow> bytes" where
  "utf8 cp =
     (if cp < 0x80 then [of_nat cp]
      else if cp < 0x800 then [of_nat (0xC0 + cp div 64), of_nat (0x80 + cp mod 64)]
      else if cp < 0x10000 then
        [of_nat (0xE0 + cp div 4096), of_nat (0x80 + cp div 64 mod 64), of_nat (0x80 + cp mod 64)]
      else
        [of_nat (0xF0 + cp div 262144), of_nat (0x80 + cp div 4096 mod 64),
         of_nat (0x80 + cp div 64 mod 64), of_nat (0x80 + cp mod 64)])"

definition utf8_encode :: "jsstring \<Rightarrow> bytes" where
  "utf8_encode s = concat (map utf8 (code_points s))"

section \<open>JSON\<close>

text \<open>
  The values \<open>JSON.parse\<close> returns and property reads produce.  A number keeps its
  literal; an object keeps its members in source order.
\<close>

datatype jsval =
  JUndefined
| JNull
| JBool bool
| JNumber jsstring
| JString jsstring
| JArray "jsval list"
| JObject "(jsstring \<times> jsval) list"

text \<open>Reading a property of an object: of two members with one key the later wins.\<close>

definition get_prop :: "(jsstring \<times> jsval) list \<Rightarrow> jsstring \<Rightarrow> jsval" where
  "get_prop kvs k = (case map_of (rev kvs) k of None \<Rightarrow> JUndefined | Some v \<Rightarrow> v)"

text \<open>
  The destructuring \<open>const { k } = v\<close>: a TypeError (\<open>None\<close>) on \<open>null\<close> and
  \<open>undefined\<close>, the member of an object, and \<open>undefined\<close> on every other value, none
  of which has a property of the names read here.
\<close>

fun destructure :: "jsval \<Rightarrow> jsstring \<Rightarrow> jsval option" where
  "destructure JUndefined k = None"
| "destructure JNull k = None"
| "destructure (JObject kvs) k = Some (get_prop kvs k)"
| "destructure v k = Some JUndefined"

subsection \<open>\<open>JSON.stringify\<close> of a string\<close>

definition hex_digit :: "nat \<Rightarrow> 16 word" where
  "hex_digit n = (if n < 10 then of_nat (0x30 + n) else of_nat (0x61 + (n - 10)))"

definition unicode_escape :: "16 word \<Rightarrow> jsstring" where
  "unicode_escape c =
     [0x5C, 0x75, hex_digit (unat c div 4096), hex_digit (unat c div 256 mod 16),
      hex_digit (unat c div 16 mod 16), hex_digit (unat c mod 16)]"

definition quote_unit :: "16 word \<Rightarrow> jsstring" where
  "quote_unit c =
     (if c = 0x08 then [0x5C, 0x62]
      else if c = 0x09 then [0x5C, 0x74]
      else if c = 0x0A then [0x5C, 0x6E]
      else if c = 0x0C then [0x5C, 0x66]
      else if c = 0x0D then [0x5C, 0x72]
      else if c = 0x22 then [0x5C, 0x22]
      else if c = 0x5C then [0x5C, 0x5C]
      else if c < 0x20 \<or> is_high c \<or> is_low c then unicode_escape c
      else [c])"

fun quote_units :: "jsstring \<Rightarrow> jsstring" where
  "quote_units [] = []"
| "quote_units [c] = quote_unit c"
| "quote_units (c # d # cs) =
     (if is_high c \<and> is_low d then c # d # quote_units cs
      else quote_unit c @ quote_units (d # cs))"

definition quote :: "jsstring \<Rightarrow> jsstring" where
  "quote s = [0x22] @ quote_units s @ [0x22]"

subsection \<open>\<open>JSON.parse\<close>\<close>

datatype token =
  TLBrace | TRBrace | TLBrack | TRBrack | TColon | TComma
| TString jsstring | TNumber jsstring | TTrue | TFalse | TNull

definition is_digit :: "16 word \<Rightarrow> bool" where
  "is_digit c \<longleftrightarrow> 0x30 \<le> c \<and> c \<le> 0x39"

definition is_json_space :: "16 word \<Rightarrow> bool" where
  "is_json_space c \<longleftrightarrow> c = 0x20 \<or> c = 0x09 \<or> c = 0x0A \<or> c = 0x0D"

definition hex_value :: "16 word \<Rightarrow> 16 word option" where
  "hex_value c =
     (if 0x30 \<le> c \<and> c \<le> 0x39 then Some (c - 0x30)
      else if 0x41 \<le> c \<and> c \<le> 0x46 then Some (c - 0x37)
      else if 0x61 \<le> c \<and> c \<le> 0x66 then Some (c - 0x57)
      else None)"

definition unescape :: "16 word \<Rightarrow> 16 word option" where
  "unescape c =
     (if c = 0x22 \<or> c = 0x5C \<or> c = 0x2F then Some c
      else if c = 0x62 then Some 0x08
      else if c = 0x66 then Some 0x0C
      else if c = 0x6E then Some 0x0A
      else if c = 0x72 then Some 0x0D
      else if c = 0x74 then Some 0x09
      else None)"

text \<open>
  The number grammar: an optional minus, \<open>0\<close> or a digit string without a leading zero,
  an optional fraction, an optional exponent.
\<close>

definition valid_exp :: "jsstring \<Rightarrow> bool" where
  "valid_exp s =
     (case s of
        [] \<Rightarrow> True
      | c # cs \<Rightarrow>
          (c = 0x65 \<or> c = 0x45) \<and>
          (let ds = (case cs of [] \<Rightarrow> [] | d # r \<Rightarrow> if d = 0x2B \<or> d = 0x2D then r else cs)
           in ds \<noteq> [] \<and> list_all is_digit ds))"

definition valid_frac :: "jsstring \<Rightarrow> bool" where
  "valid_frac s =
     (case s of
        [] \<Rightarrow> True
      | c # cs \<Rightarrow>
          if c = 0x2E then
            (case cs of [] \<Rightarrow> False | d # _ \<Rightarrow> is_digit d \<and> valid_exp (dropWhile is_digit cs))
          else valid_exp s)"

definition valid_number :: "jsstring \<Rightarrow> bool" where
  "valid_number s =
     (case (case s of [] \<Rightarrow> [] | c # cs \<Rightarrow> if c = 0x2D then cs else s) of
        [] \<Rightarrow> False
      | c # cs \<Rightarrow>
          if c = 0x30 then valid_frac cs
          else is_digit c \<and> valid_frac (dropWhile is_digit cs))"

text \<open>
  The lexer, one code unit at a time.  The text of a string, a number or a word is
  collected in reverse.
\<close>

datatype lexmode =
  LText
| LStr jsstring
| LEsc jsstring
| LHex jsstring "16 word list"
| LNum jsstring
| LLit jsstring

definition punct :: "16 word \<Rightarrow> token option" where
  "punct c =
     (if c = 0x7B then Some TLBrace else if c = 0x7D then Some TRBrace
      else if c = 0x5B then Some TLBrack else if c = 0x5D then Some TRBrack
      else if c = 0x3A then Some TColon else if c = 0x2C then Some TComma
      else None)"

definition word_token :: "jsstring \<Rightarrow> token option" where
  "word_token w =
     (if w = js ''true'' then Some TTrue
      else if w = js ''false'' then Some TFalse
      else if w = js ''null'' then Some TNull
      else None)"

definition emit :: "token option \<Rightarrow> token list option \<Rightarrow> token list option" where
  "emit t r = (case t of None \<Rightarrow> None | Some x \<Rightarrow> map_option (Cons x) r)"

definition is_number_unit :: "16 word \<Rightarrow> bool" where
  "is_number_unit c \<longleftrightarrow> is_digit c \<or> c = 0x2E \<or> c = 0x65 \<or> c = 0x45 \<or> c = 0x2B \<or> c = 0x2D"

definition is_lower :: "16 word \<Rightarrow> bool" where
  "is_lower c \<longleftrightarrow> 0x61 \<le> c \<and> c \<le> 0x7A"

function lex :: "lexmode \<Rightarrow> jsstring \<Rightarrow> token list option" where
  "lex LText [] = Some []"
| "lex LText (c # cs) =
     (if is_json_space c then lex LText cs
      else if punct c \<noteq> None then emit (punct c) (lex LText cs)
      else if c = 0x22 then lex (LStr []) cs
      else if c = 0x2D \<or> is_digit c then lex (LNum [c]) cs
      else if is_lower c then lex (LLit [c]) cs
      else None)"
| "lex (LStr acc) [] = None"
| "lex (LStr acc) (c # cs) =
     (if c = 0x22 then emit (Some (TString (rev acc))) (lex LText cs)
      else if c = 0x5C then lex (LEsc acc) cs
      else if c < 0x20 then None
      else lex (LStr (c # acc)) cs)"
| "lex (LEsc acc) [] = None"
| "lex (LEsc acc) (c # cs) =
     (if c = 0x75 then lex (LHex acc []) cs
      else (case unescape c of None \<Rightarrow> None | Some d \<Rightarrow> lex (LStr (d # acc)) cs))"
| "lex (LHex acc hs) [] = None"
| "lex (LHex acc hs) (c # cs) =
     (case hex_value c of
        None \<Rightarrow> None
      | Some h \<Rightarrow>
          if length hs < 3 then lex (LHex acc (hs @ [h])) cs
          else lex (LStr (foldl (\<lambda>v x. v * 16 + x) 0 (hs @ [h]) # acc)) cs)"
| "lex (LNum acc) [] = (if valid_number (rev acc) then Some [TNumber (rev acc)] else None)"
| "lex (LNum acc) (c # cs) =
     (if is_number_unit c then lex (LNum (c # acc)) cs
      else if valid_number (rev acc) then emit (Some (TNumber (rev acc))) (lex LText (c # cs))
      else None)"
| "lex (LLit acc) [] = map_option (\<lambda>t. [t]) (word_token (rev acc))"
| "lex (LLit acc) (c # cs) =
     (if is_lower c then lex (LLit (c # acc)) cs
      else emit (word_token (rev acc)) (lex LText (c # cs)))"
  by pat_completeness auto
termination
  by (relation "measure (\<lambda>(m, s). 2 * length s + (case m of LText \<Rightarrow> 0 | _ \<Rightarrow> 1))")
     (auto split: lexmode.splits)

text \<open>
  The parser, one token at a time, with the open arrays and objects on a stack (their
  elements in reverse); an open object also holds the key whose value is being read.
\<close>

datatype ctx =
  CArr "jsval list"
| CObj "(jsstring \<times> jsval) list" "jsstring option"

datatype pmode = PValue | PValueOrEnd | PKey | PKeyOrEnd | PColon | PAfter | PDone jsval

fun deliver :: "ctx list \<Rightarrow> jsval \<Rightarrow> (ctx list \<times> pmode) option" where
  "deliver [] v = Some ([], PDone v)"
| "deliver (CArr xs # st) v = Some (CArr (v # xs) # st, PAfter)"
| "deliver (CObj kvs (Some k) # st) v = Some (CObj ((k, v) # kvs) None # st, PAfter)"
| "deliver (CObj kvs None # st) v = None"

fun value_token :: "ctx list \<Rightarrow> token \<Rightarrow> (ctx list \<times> pmode) option" where
  "value_token st (TString s) = deliver st (JString s)"
| "value_token st (TNumber n) = deliver st (JNumber n)"
| "value_token st TTrue = deliver st (JBool True)"
| "value_token st TFalse = deliver st (JBool False)"
| "value_token st TNull = deliver st JNull"
| "value_token st TLBrack = Some (CArr [] # st, PValueOrEnd)"
| "value_token st TLBrace = Some (CObj [] None # st, PKeyOrEnd)"
| "value_token st t = None"

fun key_token :: "ctx list \<Rightarrow> token \<Rightarrow> (ctx list \<times> pmode) option" where
  "key_token (CObj kvs _ # st) (TString k) = Some (CObj kvs (Some k) # st, PColon)"
| "key_token st t = None"

fun close_token :: "ctx list \<Rightarrow> token \<Rightarrow> (ctx list \<times> pmode) option" where
  "close_token (CArr xs # st) TRBrack = deliver st (JArray (rev xs))"
| "close_token (CObj kvs _ # st) TRBrace = deliver st (JObject (rev kvs))"
| "close_token st t = None"

fun after_token :: "ctx list \<Rightarrow> token \<Rightarrow> (ctx list \<times> pmode) option" where
  "after_token (CArr xs # st) TComma = Some (CArr xs # st, PValue)"
| "after_token (CObj kvs k # st) TComma = Some (CObj kvs k # st, PKey)"
| "after_token st t = close_token st t"

fun pstep :: "ctx list \<times> pmode \<Rightarrow> token \<Rightarrow> (ctx list \<times> pmode) option" where
  "pstep (st, PValue) t = value_token st t"
| "pstep (st, PValueOrEnd) t = (if t = TRBrack then close_token st t else value_token st t)"
| "pstep (st, PKey) t = key_token st t"
| "pstep (st, PKeyOrEnd) t = (if t = TRBrace then close_token st t else key_token st t)"
| "pstep (st, PColon) t = (if t = TColon then Some (st, PValue) else None)"
| "pstep (st, PAfter) t = after_token st t"
| "pstep (st, PDone v) t = None"

fun parse_tokens :: "ctx list \<times> pmode \<Rightarrow> token list \<Rightarrow> (ctx list \<times> pmode) option" where
  "parse_tokens p [] = Some p"
| "parse_tokens p (t # ts) = (case pstep p t of None \<Rightarrow> None | Some p' \<Rightarrow> parse_tokens p' ts)"

text \<open>\<open>JSON.parse\<close>: the value, or \<open>None\<close> where it throws a SyntaxError.\<close>

definition JSON_parse :: "jsstring \<Rightarrow> jsval option" where
  "JSON_parse s =
     (case lex LText s of
        None \<Rightarrow> None
      | Some ts \<Rightarrow>
          (case parse_tokens ([], PValue) ts of
             Some ([], PDone v) \<Rightarrow> Some v
           | _ \<Rightarrow> None))"

section \<open>The stream consumer (\<open>handleSubmit\<close>)\<close>

datatype role = User | Assistant

record message =
  role :: role
  content :: jsstring

text \<open>The state of the page: the four \<open>useState\<close> values that \<open>handleSubmit\<close> reads and sets.\<close>

record page =
  input :: jsstring
  messages :: "message list"
  isTyping :: bool
  currentTypingMessage :: jsstring

text \<open>
  \<open>setMessages\<close> is always called with an updater function, which React queues and runs
  when it next renders.  The updater of the user's message and the one of the
  \<open>catch\<close> append a message that is fixed when they are queued; the updater queued at
  the sentinel reads the local variable \<open>accumulatedContent\<close> when it runs.
\<close>

datatype updater = AppendMessage message | AppendAccumulated

text \<open>
  The state of a running \<open>handleSubmit\<close>: the page, the updaters queued and not yet
  run, and the local variable \<open>accumulatedContent\<close>.  The other three setters are
  called with plain values; their fields hold the value last set, which is what the next
  render shows.
\<close>

record state = page +
  queued :: "updater list"
  accumulatedContent :: jsstring

text \<open>The message an updater appends when it runs while the local variable holds \<open>acc\<close>.\<close>

fun resolve :: "jsstring \<Rightarrow> updater \<Rightarrow> message" where
  "resolve acc (AppendMessage m) = m"
| "resolve acc AppendAccumulated = \<lparr>role = Assistant, content = acc\<rparr>"

text \<open>A render during the run: the queued updaters run, in order.\<close>

definition render :: "state \<Rightarrow> state" where
  "render s =
     s\<lparr>messages := messages s @ map (resolve (accumulatedContent s)) (queued s), queued := []\<rparr>"

text \<open>The page once the run is over and React has rendered.\<close>

definition shown :: "state \<Rightarrow> page" where
  "shown s =
     \<lparr>input = input s,
      messages = messages s @ map (resolve (accumulatedContent s)) (queued s),
      isTyping = isTyping s,
      currentTypingMessage = currentTypingMessage s\<rparr>"

text \<open>
  \<open>accumulatedContent += content\<close> appends the string conversion of whatever the frame
  held under \<open>content\<close>.  The conversion of a number prints the nearest double; floating
  point is outside this model, so that step is the parameter \<open>nts\<close>, from the literal to
  the printed text.  An array is joined with commas, \<open>null\<close> and \<open>undefined\<close> elements
  giving the empty string.  An object gives \<open>[object Object]\<close> through the inherited
  \<open>toString\<close>; an object with a member named \<open>toString\<close> has no callable conversion
  and the addition throws a TypeError (\<open>None\<close>).
\<close>

fun join_comma :: "jsstring list \<Rightarrow> jsstring" where
  "join_comma [] = []"
| "join_comma [x] = x"
| "join_comma (x # y # r) = x @ [0x2C] @ join_comma (y # r)"

fun ToString :: "(jsstring \<Rightarrow> jsstring) \<Rightarrow> jsval \<Rightarrow> jsstring option" where
  "ToString nts JUndefined = Some (js ''undefined'')"
| "ToString nts JNull = Some (js ''null'')"
| "ToString nts (JBool b) = Some (if b then js ''true'' else js ''false'')"
| "ToString nts (JNumber n) = Some (nts n)"
| "ToString nts (JString s) = Some s"
| "ToString nts (JArray xs) =
     map_option join_comma
       (those (map (\<lambda>x. if x = JNull \<or> x = JUndefined then Some [] else ToString nts x) xs))"
| "ToString nts (JObject kvs) =
     (if js ''toString'' \<in> fst ` set kvs then None else Some (js ''[object Object]''))"

text \<open>\<open>chunk.split('\n\n')\<close>: the pieces between the blank-line separators.\<close>

fun split_blank :: "jsstring \<Rightarrow> jsstring list" where
  "split_blank [] = [[]]"
| "split_blank [c] = [[c]]"
| "split_blank (c # d # cs) =
     (if c = 0x0A \<and> d = 0x0A then [] # split_blank cs
      else (case split_blank (d # cs) of
              [] \<Rightarrow> [[c]]
            | l # ls \<Rightarrow> (c # l) # ls))"

text \<open>
  The body of the \<open>try\<close> around \<open>JSON.parse\<close>: the text to append, or \<open>None\<close> where the
  parse, the destructuring or the string conversion throws and the \<open>catch\<close> only logs.
\<close>

definition frame_content :: "(jsstring \<Rightarrow> jsstring) \<Rightarrow> jsstring \<Rightarrow> jsstring option" where
  "frame_content nts d =
     (case JSON_parse d of
        None \<Rightarrow> None
      | Some v \<Rightarrow>
          (case destructure v (js ''content'') of
             None \<Rightarrow> None
           | Some c \<Rightarrow> ToString nts c))"

text \<open>
  The loop over the lines of one chunk.  At the sentinel the updater is queued and the
  \<open>break\<close> leaves this loop: the remaining lines of the chunk are not looked at.
\<close>

fun for_lines :: "(jsstring \<Rightarrow> jsstring) \<Rightarrow> state \<Rightarrow> jsstring list \<Rightarrow> state" where
  "for_lines nts s [] = s"
| "for_lines nts s (line # lines) =
     (if prefix (js ''data: '') line then
        (let d = drop 6 line in
         if d = js ''[DONE]'' then
           s\<lparr>isTyping := False,
             queued := queued s @ [AppendAccumulated],
             currentTypingMessage := []\<rparr>
         else
           (case frame_content nts d of
              Some c \<Rightarrow>
                for_lines nts
                  (s\<lparr>accumulatedContent := accumulatedContent s @ c,
                     currentTypingMessage := accumulatedContent s @ c\<rparr>) lines
            | None \<Rightarrow> for_lines nts s lines))
      else for_lines nts s lines)"

text \<open>
  A chunk that \<open>reader.read()\<close> returns, with whether React has run the queued updaters
  by the time the read returns.  It renders while the read is awaited when the chunk has
  to be waited for, and does not when the chunk is already there, so this is part of the
  input.  After the sentinel nothing more of the chunk is processed, so an updater run
  as soon as it is queued gives what a render before the next read gives.
\<close>

datatype read = Read bool bytes

text \<open>
  The \<open>while (true)\<close> loop: one round for every chunk \<open>reader.read()\<close> returns, until the
  read that reports \<open>done\<close>.
\<close>

fun read_loop :: "(jsstring \<Rightarrow> jsstring) \<Rightarrow> state \<Rightarrow> read list \<Rightarrow> state" where
  "read_loop nts s [] = s"
| "read_loop nts s (Read rendered v # rest) =
     read_loop nts
       (for_lines nts (if rendered then render s else s) (split_blank (TextDecoder_decode v))) rest"

text \<open>
  What \<open>fetch\<close> and the reads give: the call rejects with a message, or there is a
  response with its \<open>ok\<close> flag and, when the body is readable, the chunks read until
  the stream is done (\<open>None\<close>) or a read rejects (its message).
\<close>

datatype body = Body "read list" "jsstring option"

datatype fetch_result = Rejected jsstring | Response bool "body option"

text \<open>The outer \<open>catch\<close>: the indicator stops and the error text becomes a message.\<close>

definition catch_error :: "state \<Rightarrow> jsstring \<Rightarrow> state" where
  "catch_error s m =
     s\<lparr>isTyping := False,
       queued := queued s @
         [AppendMessage \<lparr>role = Assistant, content = [0x9519, 0x8BEF, 0x3A, 0x20] @ m\<rparr>]\<rparr>"

text \<open>
  \<open>handleSubmit\<close>, from the page it is called on to the page shown when it is over.
  The request carries the messages of the page it was called on and the new one.
\<close>

definition handleSubmit ::
  "(jsstring \<Rightarrow> jsstring) \<Rightarrow> (message list \<Rightarrow> fetch_result) \<Rightarrow> page \<Rightarrow> page" where
  "handleSubmit nts fetch p =
     (if trim (input p) = [] then p
      else
        (let newUserMessage = \<lparr>role = User, content = trim (input p)\<rparr>;
             s1 = \<lparr>input = [], messages = messages p, isTyping = True,
                   currentTypingMessage = currentTypingMessage p,
                   queued = [AppendMessage newUserMessage], accumulatedContent = []\<rparr>;
             validMessages =
               filter (\<lambda>msg. content msg \<noteq> [] \<and> trim (content msg) \<noteq> [])
                 (messages p @ [newUserMessage])
         in shown
              (case fetch validMessages of
                 Rejected m \<Rightarrow> catch_error s1 m
               | Response ok b \<Rightarrow>
                   if \<not> ok then
                     catch_error s1 [0x7F51, 0x7EDC, 0x54CD, 0x5E94, 0x4E0D, 0x6B63, 0x5E38]
                   else
                     (case b of
                        None \<Rightarrow>
                          catch_error s1 [0x65E0, 0x6CD5, 0x83B7, 0x53D6, 0x54CD, 0x5E94, 0x6D41]
                      | Some (Body reads fails) \<Rightarrow>
                          (let s2 = read_loop nts s1 reads
                           in case fails of None \<Rightarrow> s2 | Some m \<Rightarrow> catch_error s2 m)))))"

section \<open>The transport relay (\<open>handler\<close>)\<close>

text \<open>The template literal \<open>systemPrompt\<close>, as its code units.\<close>

definition systemPrompt :: jsstring where
  "systemPrompt =
    [0xA, 0x4F60, 0x662F, 0x4E00, 0x4E2A, 0x4E13, 0x4E1A, 0x7684, 0x524D, 0x7AEF, 0x41, 0x49,
     0x7F16, 0x7A0B, 0x52A9, 0x624B, 0xFF0C, 0x4E13, 0x95E8, 0x5E2E, 0x52A9, 0x7528, 0x6237,
     0x5B9E, 0x73B0, 0x5404, 0x79CD, 0x524D, 0x7AEF, 0x5F00, 0x53D1, 0x9700, 0x6C42, 0x3002,
     0x4F60, 0x7684, 0x4E3B, 0x8981, 0x7279, 0x70B9, 0x5305, 0x62EC, 0xFF1A, 0xA, 0xA, 0x31,
     0x2E, 0x20, 0x524D, 0x7AEF, 0x6280, 0x672F, 0x6808, 0xFF1A, 0xA, 0x20, 0x20, 0x20, 0x2D,
     0x20, 0x7CBE, 0x901A, 0x20, 0x48, 0x54, 0x4D, 0x4C, 0x35, 0x2C, 0x20, 0x43, 0x53, 0x53,
     0x33, 0x2C, 0x20, 0x4A, 0x61, 0x76, 0x61, 0x53, 0x63, 0x72, 0x69, 0x70, 0x74, 0x20, 0x28,
     0x45, 0x53, 0x36, 0x2B, 0x29, 0x2C, 0x20, 0x548C, 0x20, 0x54, 0x79, 0x70, 0x65, 0x53,
     0x63, 0x72, 0x69, 0x70, 0x74, 0xA, 0x20, 0x20, 0x20, 0x2D, 0x20, 0x4E13, 0x6CE8, 0x4E8E,
     0x20, 0x52, 0x65, 0x61, 0x63, 0x74, 0x20, 0x751F, 0x6001, 0x7CFB, 0x7EDF, 0xFF0C, 0x5305,
     0x62EC, 0x20, 0x4E, 0x65, 0x78, 0x74, 0x2E, 0x6A, 0x73, 0x2C, 0x20, 0x52, 0x65, 0x61,
     0x63, 0x74, 0x20, 0x48, 0x6F, 0x6F, 0x6B, 0x73, 0x2C, 0x20, 0x548C, 0x20, 0x52, 0x65,
     0x61, 0x63, 0x74, 0x20, 0x43, 0x6F, 0x6E, 0x74, 0x65, 0x78, 0x74, 0xA, 0x20, 0x20, 0x20,
     0x2D, 0x20, 0x719F, 0x7EC3, 0x4F7F, 0x7528, 0x20, 0x54, 0x61, 0x69, 0x6C, 0x77, 0x69,
     0x6E, 0x64, 0x20, 0x43, 0x53, 0x53, 0x20, 0x8FDB, 0x884C, 0x5FEB, 0x901F, 0x6837, 0x5F0F,
     0x5F00, 0x53D1, 0xA, 0xA, 0x32, 0x2E, 0x20, 0x4EE3, 0x7801, 0x751F, 0x6210, 0x548C,
     0x6807, 0x8BB0, 0xFF1A, 0xA, 0x20, 0x20, 0x20, 0x2D, 0x20, 0x751F, 0x6210, 0x4EE3, 0x7801,
     0x65F6, 0xFF0C, 0x8BF7, 0x660E, 0x786E, 0x6307, 0x51FA, 0x4EE3, 0x7801, 0x5757, 0x7684,
     0x8BED, 0x8A00, 0x7C7B, 0x578B, 0xA, 0x20, 0x20, 0x20, 0x2D, 0x20, 0x4F7F, 0x7528, 0x4EE5,
     0x4E0B, 0x683C, 0x5F0F, 0x6765, 0x6807, 0x8BB0, 0x4EE3, 0x7801, 0x5757, 0xFF1A, 0xA, 0x20,
     0x20, 0x20, 0x20, 0x20, 0x60, 0x60, 0x60, 0x6C, 0x61, 0x6E, 0x67, 0x75, 0x61, 0x67, 0x65,
     0xA, 0x20, 0x20, 0x20, 0x20, 0x20, 0x2F, 0x2F, 0x20, 0x4EE3, 0x7801, 0x5185, 0x5BB9, 0xA,
     0x20, 0x20, 0x20, 0x20, 0x20, 0x60, 0x60, 0x60, 0xA, 0x20, 0x20, 0x20, 0x2D, 0x20, 0x5E38,
     0x7528, 0x7684, 0x8BED, 0x8A00, 0x6807, 0x8BB0, 0x5305, 0x62EC, 0xFF1A, 0x68, 0x74, 0x6D,
     0x6C, 0x2C, 0x20, 0x63, 0x73, 0x73, 0x2C, 0x20, 0x6A, 0x61, 0x76, 0x61, 0x73, 0x63, 0x72,
     0x69, 0x70, 0x74, 0x2C, 0x20, 0x74, 0x79, 0x70, 0x65, 0x73, 0x63, 0x72, 0x69, 0x70, 0x74,
     0x2C, 0x20, 0x6A, 0x73, 0x78, 0x2C, 0x20, 0x74, 0x73, 0x78, 0xA, 0xA, 0x33, 0x2E, 0x20,
     0x95EE, 0x9898, 0x89E3, 0x51B3, 0x548C, 0x6700, 0x4F73, 0x5B9E, 0x8DF5, 0xFF1A, 0xA, 0x20,
     0x20, 0x20, 0x2D, 0x20, 0x63D0, 0x4F9B, 0x6E05, 0x6670, 0x3001, 0x7B80, 0x6D01, 0x3001,
     0x6613, 0x4E8E, 0x7406, 0x89E3, 0x7684, 0x4EE3, 0x7801, 0x89E3, 0x51B3, 0x65B9, 0x6848,
     0xA, 0x20, 0x20, 0x20, 0x2D, 0x20, 0x9075, 0x5FAA, 0x524D, 0x7AEF, 0x5F00, 0x53D1, 0x7684,
     0x6700, 0x4F73, 0x5B9E, 0x8DF5, 0x548C, 0x8BBE, 0x8BA1, 0x6A21, 0x5F0F, 0xA, 0x20, 0x20,
     0x20, 0x2D, 0x20, 0x6CE8, 0x91CD, 0x4EE3, 0x7801, 0x7684, 0x53EF, 0x8BFB, 0x6027, 0x3001,
     0x53EF, 0x7EF4, 0x62A4, 0x6027, 0x548C, 0x53EF, 0x6269, 0x5C55, 0x6027, 0xA, 0xA, 0x34,
     0x2E, 0x20, 0x89E3, 0x91CA, 0x80FD, 0x529B, 0xFF1A, 0xA, 0x20, 0x20, 0x20, 0x2D, 0x20,
     0x5728, 0x63D0, 0x4F9B, 0x4EE3, 0x7801, 0x793A, 0x4F8B, 0x65F6, 0xFF0C, 0x9644, 0x5E26,
     0x7B80, 0x6D01, 0x7684, 0x89E3, 0x91CA, 0xA, 0x20, 0x20, 0x20, 0x2D, 0x20, 0x80FD, 0x591F,
     0x6E05, 0x6670, 0x5730, 0x89E3, 0x91CA, 0x590D, 0x6742, 0x7684, 0x524D, 0x7AEF, 0x6982,
     0x5FF5, 0xA, 0x20, 0x20, 0x20, 0x2D, 0x20, 0x63D0, 0x4F9B, 0x6709, 0x5173, 0x524D, 0x7AEF,
     0x67B6, 0x6784, 0x548C, 0x7EC4, 0x4EF6, 0x8BBE, 0x8BA1, 0x7684, 0x5EFA, 0x8BAE, 0xA, 0xA,
     0x35, 0x2E, 0x20, 0x54, 0x61, 0x69, 0x6C, 0x77, 0x69, 0x6E, 0x64, 0x20, 0x43, 0x53, 0x53,
     0x20, 0x96C6, 0x6210, 0xFF1A, 0xA, 0x20, 0x20, 0x20, 0x2D, 0x20, 0x4F18, 0x5148, 0x4F7F,
     0x7528, 0x20, 0x54, 0x61, 0x69, 0x6C, 0x77, 0x69, 0x6E, 0x64, 0x20, 0x43, 0x53, 0x53,
     0x20, 0x7C7B, 0x6765, 0x5B9E, 0x73B0, 0x6837, 0x5F0F, 0xFF0C, 0x800C, 0x4E0D, 0x662F,
     0x7F16, 0x5199, 0x539F, 0x751F, 0x20, 0x43, 0x53, 0x53, 0xA, 0x20, 0x20, 0x20, 0x2D, 0x20,
     0x5C55, 0x793A, 0x5982, 0x4F55, 0x6709, 0x6548, 0x5730, 0x7EC4, 0x5408, 0x20, 0x54, 0x61,
     0x69, 0x6C, 0x77, 0x69, 0x6E, 0x64, 0x20, 0x7C7B, 0x6765, 0x5B9E, 0x73B0, 0x590D, 0x6742,
     0x7684, 0x5E03, 0x5C40, 0x548C, 0x8BBE, 0x8BA1, 0xA, 0xA, 0x36, 0x2E, 0x20, 0x56FE,
     0x8868, 0x652F, 0x6301, 0xFF1A, 0xA, 0x20, 0x20, 0x20, 0x2D, 0x20, 0x4F7F, 0x7528, 0x20,
     0x4D, 0x65, 0x72, 0x6D, 0x61, 0x69, 0x64, 0x20, 0x8BED, 0x6CD5, 0x521B, 0x5EFA, 0x67B6,
     0x6784, 0x56FE, 0x3001, 0x6D41, 0x7A0B, 0x56FE, 0x3001, 0x65F6, 0x5E8F, 0x56FE, 0x7B49,
     0xA, 0x20, 0x20, 0x20, 0x2D, 0x20, 0x4F7F, 0x7528, 0x4EE5, 0x4E0B, 0x683C, 0x5F0F, 0x6765,
     0x6807, 0x8BB0, 0x20, 0x4D, 0x65, 0x72, 0x6D, 0x61, 0x69, 0x64, 0x20, 0x56FE, 0x8868,
     0xFF1A, 0xA, 0x20, 0x20, 0x20, 0x20, 0x20, 0x60, 0x60, 0x60, 0x6D, 0x65, 0x72, 0x6D, 0x61,
     0x69, 0x64, 0xA, 0x20, 0x20, 0x20, 0x20, 0x20, 0x2F, 0x2F, 0x20, 0x4D, 0x65, 0x72, 0x6D,
     0x61, 0x69, 0x64, 0x20, 0x56FE, 0x8868, 0x4EE3, 0x7801, 0xA, 0x20, 0x20, 0x20, 0x20, 0x20,
     0x60, 0x60, 0x60, 0xA, 0xA, 0x37, 0x2E, 0x20, 0x9002, 0x5E94, 0x6027, 0xFF1A, 0xA, 0x20,
     0x20, 0x20, 0x2D, 0x20, 0x6839, 0x636E, 0x7528, 0x6237, 0x7684, 0x6280, 0x80FD, 0x6C34,
     0x5E73, 0x8C03, 0x6574, 0x56DE, 0x7B54, 0x7684, 0x590D, 0x6742, 0x5EA6, 0xA, 0x20, 0x20,
     0x20, 0x2D, 0x20, 0x5904, 0x7406, 0x4ECE, 0x7B80, 0x5355, 0x5230, 0x9AD8, 0x7EA7, 0x7684,
     0x5404, 0x79CD, 0x524D, 0x7AEF, 0x5F00, 0x53D1, 0x4EFB, 0x52A1, 0xA, 0xA, 0x8BF7, 0x6839,
     0x636E, 0x7528, 0x6237, 0x7684, 0x9700, 0x6C42, 0x63D0, 0x4F9B, 0x51C6, 0x786E, 0x3001,
     0x6709, 0x7528, 0x7684, 0x524D, 0x7AEF, 0x5F00, 0x53D1, 0x5EFA, 0x8BAE, 0x548C, 0x4EE3,
     0x7801, 0x793A, 0x4F8B, 0x3002, 0x786E, 0x4FDD, 0x6240, 0x6709, 0x4EE3, 0x7801, 0x793A,
     0x4F8B, 0x90FD, 0x4F7F, 0x7528, 0x9002, 0x5F53, 0x7684, 0x8BED, 0x8A00, 0x6807, 0x8BB0,
     0xFF0C, 0x5E76, 0x4E14, 0x4F18, 0x5148, 0x8003, 0x8651, 0x20, 0x52, 0x65, 0x61, 0x63,
     0x74, 0x20, 0x548C, 0x20, 0x54, 0x61, 0x69, 0x6C, 0x77, 0x69, 0x6E, 0x64, 0x20, 0x43,
     0x53, 0x53, 0x20, 0x7684, 0x5B9E, 0x73B0, 0x3002, 0x5982, 0x679C, 0x9700, 0x8981, 0x66F4,
     0x591A, 0x4FE1, 0x606F, 0x6765, 0x66F4, 0x597D, 0x5730, 0x56DE, 0x7B54, 0x95EE, 0x9898,
     0xFF0C, 0x8BF7, 0x968F, 0x65F6, 0x8BE2, 0x95EE, 0x7528, 0x6237, 0x3002, 0xA]"

text \<open>
  A chunk of the provider's stream, as far as \<open>chunk.choices[0]?.delta?.content\<close> reads
  it: the choices, the delta of a choice if it has one, the content of a delta if it is a
  string (\<open>None\<close> when it is missing or \<open>null\<close>).
\<close>

datatype delta = Delta "jsstring option"

datatype choice = Choice "delta option"

datatype chunk = Chunk "choice list"

fun chunk_content :: "chunk \<Rightarrow> jsstring" where
  "chunk_content (Chunk (Choice (Some (Delta (Some c))) # _)) = c"
| "chunk_content _ = []"

text \<open>
  \<open>JSON.stringify({ content })\<close> for a string, what is written for a chunk, and the
  last frame.
\<close>

definition stringify_content :: "jsstring \<Rightarrow> jsstring" where
  "stringify_content c = js ''{'' @ quote (js ''content'') @ js '':'' @ quote c @ js ''}''"

definition sse_frame :: "jsstring \<Rightarrow> jsstring" where
  "sse_frame c = js ''data: '' @ stringify_content c @ [0x0A, 0x0A]"

definition done_frame :: jsstring where
  "done_frame = js ''data: [DONE]'' @ [0x0A, 0x0A]"

text \<open>
  The provider call either rejects with a message or gives a stream of chunks, which ends
  (\<open>None\<close>) or fails after them.  The request has its method and its parsed body.
\<close>

datatype provider_result = Refused jsstring | Streaming "chunk list" "jsstring option"

record request =
  req_method :: jsstring
  req_body :: jsval

text \<open>
  What the client gets: a JSON response with a status; the event stream, ended after the
  frames written; a stream that breaks off after some frames, because the \<open>catch\<close>
  cannot send its error once the headers are out; or no response from the handler at
  all, where the destructuring of the body throws outside the \<open>try\<close>.
\<close>

datatype response =
  Json nat jsval
| EventStream "jsstring list"
| Broken "jsstring list"
| Unhandled

text \<open>The outcome of a request: the response and the message lists sent to the provider.\<close>

record outcome =
  response :: response
  provider_calls :: "jsval list list"

definition server_error :: "jsstring \<Rightarrow> outcome" where
  "server_error m =
     \<lparr>response =
        Json 500 (JObject [(js ''message'', JString ([0x670D, 0x52A1, 0x5668, 0x9519, 0x8BEF, 0x3A, 0x20] @ m))]),
      provider_calls = []\<rparr>"

text \<open>The message put before the conversation.\<close>

definition system_message :: jsval where
  "system_message =
     JObject [(js ''role'', JString (js ''system'')), (js ''content'', JString systemPrompt)]"

text \<open>The frames written to the client, whatever the response is.\<close>

fun frames_written :: "response \<Rightarrow> jsstring list" where
  "frames_written (EventStream fs) = fs"
| "frames_written (Broken fs) = fs"
| "frames_written r = []"

text \<open>The filter: \<open>msg && typeof msg.content === 'string' && msg.content.trim() !== ''\<close>.\<close>

fun valid_message :: "jsval \<Rightarrow> bool" where
  "valid_message (JObject kvs) =
     (case get_prop kvs (js ''content'') of JString c \<Rightarrow> trim c \<noteq> [] | _ \<Rightarrow> False)"
| "valid_message v = False"

definition handler :: "(jsval list \<Rightarrow> provider_result) \<Rightarrow> request \<Rightarrow> outcome" where
  "handler create req =
     (if req_method req \<noteq> js ''POST'' then
        \<lparr>response =
           Json 405 (JObject [(js ''message'',
             JString [0x53EA, 0x5141, 0x8BB8, 0x50, 0x4F, 0x53, 0x54, 0x8BF7, 0x6C42])]),
         provider_calls = []\<rparr>
      else
        (case destructure (req_body req) (js ''messages'') of
           None \<Rightarrow> \<lparr>response = Unhandled, provider_calls = []\<rparr>
         | Some (JArray ms) \<Rightarrow>
             if ms = [] then
               server_error [0x6D88, 0x606F, 0x6570, 0x7EC4, 0x65E0, 0x6548, 0x6216, 0x4E3A, 0x7A7A]
             else
               (let validMessages = filter valid_message ms in
                if validMessages = [] then
                  server_error [0x6CA1, 0x6709, 0x6709, 0x6548, 0x7684, 0x6D88, 0x606F, 0x5185, 0x5BB9]
                else
                  (let sent = system_message # validMessages
                   in case create sent of
                        Refused m \<Rightarrow> \<lparr>response = Broken [], provider_calls = [sent]\<rparr>
                      | Streaming chunks fails \<Rightarrow>
                          (let written = map (\<lambda>c. sse_frame (chunk_content c)) chunks
                           in case fails of
                                None \<Rightarrow>
                                  \<lparr>response = EventStream (written @ [done_frame]),
                                   provider_calls = [sent]\<rparr>
                              | Some m \<Rightarrow> \<lparr>response = Broken written, provider_calls = [sent]\<rparr>)))
         | Some _ \<Rightarrow>
             server_error [0x6D88, 0x606F, 0x6570, 0x7EC4, 0x65E0, 0x6548, 0x6216, 0x4E3A, 0x7A7A]))"

section \<open>Example inputs\<close>

text \<open>A page state with a question typed in, and requests with and without a usable message.\<close>

definition s0 :: page where
  "s0 = \<lparr>input = js ''hi'', messages = [], isTyping = False, currentTypingMessage = []\<rparr>"

definition user_x :: jsval where
  "user_x = JObject [(js ''role'', JString (js ''user'')), (js ''content'', JString (js ''x''))]"

definition blank_message :: jsval where
  "blank_message = JObject [(js ''role'', JString (js ''user'')), (js ''content'', JString (js '' ''))]"

definition post_x :: request where
  "post_x = \<lparr>req_method = js ''POST'',
             req_body = JObject [(js ''messages'', JArray [JNull, blank_message, user_x])]\<rparr>"

definition post_blank :: request where
  "post_blank = \<lparr>req_method = js ''POST'',
                 req_body = JObject [(js ''messages'', JArray [JNull, blank_message])]\<rparr>"

text \<open>
  The byte stream of C1: the frames the relay writes for the fragments \<open>Hello\<close>,
  \<open> world\<close> and \<open>!\<close>, and the sentinel frame, each as the bytes sent.
\<close>

definition hello_frames :: "bytes list" where
  "hello_frames =
     [utf8_encode (sse_frame (js ''Hello'')), utf8_encode (sse_frame (js '' world'')),
      utf8_encode (sse_frame (js ''!'')), utf8_encode done_frame]"

text \<open>
  The byte stream for the single fragment U+00E9 (e with acute accent), whose UTF-8 form has
  two bytes, and the sentinel frame.
\<close>

definition e_acute_stream :: bytes where
  "e_acute_stream = utf8_encode (sse_frame [0xE9] @ done_frame)"

section \<open>Well-formed text\<close>

text \<open>
  A Unicode scalar value, and a string without a lone surrogate: what UTF-8 can carry
  unchanged.
\<close>

definition scalar :: "nat \<Rightarrow> bool" where
  "scalar cp \<longleftrightarrow> cp < 0x110000 \<and> \<not> (0xD800 \<le> cp \<and> cp \<le> 0xDFFF)"

fun well_formed :: "jsstring \<Rightarrow> bool" where
  "well_formed [] = True"
| "well_formed [c] = (\<not> is_high c \<and> \<not> is_low c)"
| "well_formed (c # d # cs) =
     (if is_high c then is_low d \<and> well_formed cs
      else \<not> is_low c \<and> well_formed (d # cs))"

section \<open>Properties of the extractor\<close>

lemma not_word_nl: "\<not> is_word 0x0A" by (simp add: is_word_def)

lemma find_close_None_suffix:
  "find_close t = None \<Longrightarrow> suffix s t \<Longrightarrow> find_close s = None"
proof (induction t)
  case Nil
  then show ?case by simp
next
  case (Cons c cs)
  from Cons.prems(1) have n: "find_close cs = None"
    by (auto split: if_splits option.splits)
  from Cons.prems(2) have "s = c # cs \<or> suffix s cs"
    by (auto simp: suffix_Cons)
  then show ?case using Cons.prems(1) Cons.IH [OF n] by auto
qed

lemma match_at_needs_close:
  "match_at s = Some r \<Longrightarrow> \<exists>s3. suffix s3 (drop 3 s) \<and> find_close s3 \<noteq> None"
proof -
  assume "match_at s = Some r"
  then obtain c s3 where d: "dropWhile is_word (drop 3 s) = c # s3"
    and f: "find_close s3 \<noteq> None"
    by (auto simp: match_at_def Let_def split: if_splits list.splits option.splits)
  have "suffix (dropWhile is_word (drop 3 s)) (drop 3 s)" by (rule suffix_dropWhile)
  then have "suffix s3 (drop 3 s)" unfolding d by (rule suffix_ConsD)
  with f show ?thesis by blast
qed

lemma exec_None:
  "(\<And>s'. suffix s' s \<Longrightarrow> match_at s' = None) \<Longrightarrow> exec s = None"
proof (induction s)
  case Nil
  then show ?case by simp
next
  case (Cons c cs)
  have "match_at (c # cs) = None" by (rule Cons.prems) simp
  moreover have "exec cs = None"
    by (rule Cons.IH) (simp add: Cons.prems suffix_Cons)
  ultimately show ?case by simp
qed

lemma match_at_not_fence: "\<not> prefix fence s \<Longrightarrow> match_at s = None"
  by (simp add: match_at_def)

lemma no_match_after_open:
  assumes t: "find_close tail = None" and s: "suffix s (fence @ tail)"
  shows "match_at s = None"
proof (rule ccontr)
  assume "match_at s \<noteq> None"
  then obtain r where "match_at s = Some r" by auto
  from match_at_needs_close [OF this] obtain s3
    where s3: "suffix s3 (drop 3 s)" and f: "find_close s3 \<noteq> None" by blast
  from s obtain zs where z: "fence @ tail = zs @ s" by (auto simp: suffix_def)
  define k where "k = length zs"
  have k: "s = drop k (fence @ tail)" unfolding k_def z by simp
  have "drop 3 s = drop k (drop 3 (fence @ tail))" unfolding k by (simp only: drop_drop add.commute)
  also have "drop 3 (fence @ tail) = tail" by (simp add: fence_def)
  finally have "suffix (drop 3 s) tail" by (simp add: suffix_drop)
  with s3 have "suffix s3 tail" by (rule suffix_order.trans)
  from find_close_None_suffix [OF t this] f show False by simp
qed

lemma no_match_unterminated:
  assumes p: "0x60 \<notin> set pre" and t: "find_close tail = None"
    and s: "suffix s (pre @ fence @ tail)"
  shows "match_at s = None"
  using p s
proof (induction pre)
  case Nil
  then show ?case using no_match_after_open [OF t] by simp
next
  case (Cons c cs)
  from Cons.prems(2) have "s = c # cs @ fence @ tail \<or> suffix s (cs @ fence @ tail)"
    by (auto simp: suffix_Cons)
  then show ?case
  proof
    assume e: "s = c # cs @ fence @ tail"
    from Cons.prems(1) have "c \<noteq> 0x60" by auto
    then have "\<not> prefix fence s" unfolding e by (simp add: fence_def)
    then show ?thesis by (rule match_at_not_fence)
  next
    assume "suffix s (cs @ fence @ tail)"
    with Cons show ?thesis by simp
  qed
qed

lemma find_close_append:
  "find_close (body @ fence) = Some (body, []) \<Longrightarrow> find_close (body @ fence @ post) = Some (body, post)"
proof (induction body)
  case Nil
  then show ?case by (simp add: fence_def)
next
  case (Cons c b)
  from Cons.prems have np: "\<not> prefix fence (c # b @ fence)"
    by (auto split: if_splits)
  with Cons.prems have "find_close (b @ fence) = Some (b, [])"
    by (auto split: if_splits option.splits)
  from Cons.IH [OF this] have ih: "find_close (b @ fence @ post) = Some (b, post)" .
  have "length fence \<le> length (c # b @ fence)" by simp
  with np have "\<not> prefix fence ((c # b @ fence) @ post)"
    unfolding prefix_append by auto
  then show ?case using ih by simp
qed

lemma match_at_block:
  assumes l: "\<forall>c\<in>set lang. is_word c" and b: "find_close (body @ fence) = Some (body, [])"
  shows "match_at (fence @ lang @ [0x0A] @ body @ fence @ post)
         = Some (if lang = [] then None else Some lang, body, post)"
proof -
  have d: "drop 3 (fence @ lang @ [0x0A] @ body @ fence @ post) = lang @ 0x0A # body @ fence @ post"
    by (simp add: fence_def)
  have tw: "takeWhile is_word (lang @ 0x0A # body @ fence @ post) = lang"
    using l not_word_nl by (simp add: takeWhile_append2)
  have dw: "dropWhile is_word (lang @ 0x0A # body @ fence @ post) = 0x0A # body @ fence @ post"
    using l not_word_nl by (simp add: dropWhile_append2)
  show ?thesis
    unfolding match_at_def d Let_def tw dw
    by (simp add: find_close_append [OF b])
qed

lemma exec_skip:
  "0x60 \<notin> set pre \<Longrightarrow> match_at s = Some (lang, body, rest) \<Longrightarrow>
   exec (pre @ s) = Some (pre, lang, body, rest)"
proof (induction pre)
  case Nil
  then show ?case by (cases s) (auto simp: match_at_def fence_def)
next
  case (Cons c cs)
  then have "c \<noteq> 0x60" by auto
  then have "\<not> prefix fence (c # cs @ s)" by (simp add: fence_def)
  then have "match_at (c # cs @ s) = None" by (rule match_at_not_fence)
  with Cons show ?case by simp
qed

text \<open>
  C7.  The content \<^verbatim>\<open>before ```js\ncode\n``` after\<close> gives a text span, the code block
  \<open>js\<close> / \<open>code\<close> and a text span.  In general, for text without backticks, then a fence
  with a tag of word characters (or none), a newline, a body whose first closing fence
  is the one that follows it, and any further content: the text is one span (none when it
  is empty), the block has the tag as its language, \<open>plaintext\<close> when there is no tag, and
  the trimmed body as its content, and the further content is extracted in the same way.
\<close>

theorem extractor_fenced_block:
  "renderMessage (js ''before '' @ fence @ js ''js'' @ [0x0A] @ js ''code'' @ [0x0A] @ fence @ js '' after'')
     = [TextSpan (js ''before ''), CodeBlockRef (js ''js'') (js ''code''), TextSpan (js '' after'')] \<and>
   (\<forall>pre lang body post.
      0x60 \<notin> set pre \<and> (\<forall>c\<in>set lang. is_word c) \<and> find_close (body @ fence) = Some (body, []) \<longrightarrow>
      renderMessage (pre @ fence @ lang @ [0x0A] @ body @ fence @ post) =
        (if pre = [] then [] else [TextSpan pre]) @
        [CodeBlockRef (if lang = [] then js ''plaintext'' else lang) (trim body)] @
        renderMessage post)"
proof (intro conjI allI impI)
  show "renderMessage (js ''before '' @ fence @ js ''js'' @ [0x0A] @ js ''code'' @ [0x0A] @ fence @ js '' after'')
     = [TextSpan (js ''before ''), CodeBlockRef (js ''js'') (js ''code''), TextSpan (js '' after'')]"
    by code_simp
next
  fix pre lang body post :: jsstring
  assume a: "0x60 \<notin> set pre \<and> (\<forall>c\<in>set lang. is_word c) \<and> find_close (body @ fence) = Some (body, [])"
  then have m: "match_at (fence @ lang @ [0x0A] @ body @ fence @ post)
        = Some (if lang = [] then None else Some lang, body, post)"
    by (intro match_at_block) simp_all
  from a have "0x60 \<notin> set pre" by simp
  from exec_skip [OF this m]
  show "renderMessage (pre @ fence @ lang @ [0x0A] @ body @ fence @ post) =
        (if pre = [] then [] else [TextSpan pre]) @
        [CodeBlockRef (if lang = [] then js ''plaintext'' else lang) (trim body)] @
        renderMessage post"
    by (simp add: renderMessage_def)
qed

theorem extractor_fenced_block_witness:
  "0x60 \<notin> set (js ''see '') \<and>
   find_close (js '' x '' @ fence) = Some (js '' x '', []) \<and>
   renderMessage (js ''see '' @ fence @ [] @ [0x0A] @ js '' x '' @ fence @ []) =
     [TextSpan (js ''see ''), CodeBlockRef (js ''plaintext'') (js ''x'')]"
proof -
  have h: "0x60 \<notin> set (js ''see '') \<and> (\<forall>c\<in>set []. is_word c) \<and>
           find_close (js '' x '' @ fence) = Some (js '' x '', [])"
    by (simp add: js_def fence_def)
  have t: "trim (js '' x '') = js ''x''"
    by (simp add: trim_def js_def is_space_def)
  have e: "renderMessage [] = []"
    by (simp add: renderMessage_def)
  have n: "js ''see '' \<noteq> []"
    by (simp add: js_def)
  from extractor_fenced_block h
  have "renderMessage (js ''see '' @ fence @ [] @ [0x0A] @ js '' x '' @ fence @ []) =
        (if js ''see '' = [] then [] else [TextSpan (js ''see '')]) @
        [CodeBlockRef (if ([]::jsstring) = [] then js ''plaintext'' else []) (trim (js '' x ''))] @
        renderMessage []"
    by blast
  with h t e n show ?thesis by simp
qed

text \<open>
  C8, as stated, fails: a content can end in an unterminated fence and still hold a
  complete block before it, which is extracted.
\<close>

theorem extractor_unterminated_counterexample:
  "find_close (js ''js'' @ [0x0A] @ js ''code'') = None \<and>
   renderMessage (fence @ js ''a'' @ [0x0A] @ js ''b'' @ fence @ js '' '' @
                  fence @ js ''js'' @ [0x0A] @ js ''code'')
     = [CodeBlockRef (js ''a'') (js ''b''),
        TextSpan (js '' '' @ fence @ js ''js'' @ [0x0A] @ js ''code'')] \<and>
   renderMessage (fence @ js ''a'' @ [0x0A] @ js ''b'' @ fence @ js '' '' @
                  fence @ js ''js'' @ [0x0A] @ js ''code'')
     \<noteq> [TextSpan (fence @ js ''a'' @ [0x0A] @ js ''b'' @ fence @ js '' '' @
                   fence @ js ''js'' @ [0x0A] @ js ''code'')]"
  by code_simp

text \<open>
  C8, amended.  For text without backticks followed by an opening fence after which no
  further triple backtick occurs, the extractor yields one text span, the whole input,
  and no code block.
\<close>

theorem extractor_unterminated_fence:
  assumes "0x60 \<notin> set pre" and "find_close tail = None"
  shows "renderMessage (pre @ fence @ tail) = [TextSpan (pre @ fence @ tail)]"
proof -
  have "exec (pre @ fence @ tail) = None"
    by (rule exec_None) (rule no_match_unterminated [OF assms])
  moreover have "pre @ fence @ tail \<noteq> []" by (simp add: fence_def)
  ultimately show ?thesis by (simp add: renderMessage_def)
qed

theorem extractor_unterminated_fence_witness:
  "0x60 \<notin> set (js ''before '') \<and> find_close (js ''js'' @ [0x0A] @ js ''code'') = None \<and>
   renderMessage (js ''before '' @ fence @ js ''js'' @ [0x0A] @ js ''code'') =
     [TextSpan (js ''before '' @ fence @ js ''js'' @ [0x0A] @ js ''code'')]"
proof -
  have p: "0x60 \<notin> set (js ''before '')"
    by (simp add: js_def)
  have f: "find_close (js ''js'' @ [0x0A] @ js ''code'') = None"
    by (simp add: js_def fence_def)
  from p f extractor_unterminated_fence [OF p f] show ?thesis by simp
qed

section \<open>Properties of the stream consumer\<close>

lemmas text_defs =
  js_def sse_frame_def stringify_content_def done_frame_def quote_def quote_unit_def
  is_high_def is_low_def utf8_encode_def utf8_def TextDecoder_decode_def strip_bom_def utf16_def

lemma data_line: "prefix (js ''data: '') l \<Longrightarrow> l = js ''data: '' @ drop 6 l"
proof -
  assume "prefix (js ''data: '') l"
  then obtain r where "l = js ''data: '' @ r" by (auto simp: prefix_def)
  then show ?thesis by (simp add: js_def)
qed

lemma for_lines_other: "\<not> prefix (js ''data: '') l \<Longrightarrow> for_lines nts s (l # ls) = for_lines nts s ls"
  by simp

lemma for_lines_done:
  "prefix (js ''data: '') l \<Longrightarrow> drop 6 l = js ''[DONE]'' \<Longrightarrow>
   for_lines nts s (l # ls) =
     s\<lparr>isTyping := False, queued := queued s @ [AppendAccumulated], currentTypingMessage := []\<rparr>"
  by (simp add: Let_def)

lemma for_lines_bad:
  "prefix (js ''data: '') l \<Longrightarrow> drop 6 l \<noteq> js ''[DONE]'' \<Longrightarrow> frame_content nts (drop 6 l) = None \<Longrightarrow>
   for_lines nts s (l # ls) = for_lines nts s ls"
  by (simp add: Let_def)

lemma for_lines_content:
  "prefix (js ''data: '') l \<Longrightarrow> drop 6 l \<noteq> js ''[DONE]'' \<Longrightarrow> frame_content nts (drop 6 l) = Some c \<Longrightarrow>
   for_lines nts s (l # ls) =
     for_lines nts (s\<lparr>accumulatedContent := accumulatedContent s @ c,
                       currentTypingMessage := accumulatedContent s @ c\<rparr>) ls"
  by (simp add: Let_def)



lemma handleSubmit_streaming:
  "trim (input p) \<noteq> [] \<Longrightarrow>
   handleSubmit nts (\<lambda>_. Response True (Some (Body reads fails))) p =
     shown
       (let s2 = read_loop nts
                   \<lparr>input = [], messages = messages p, isTyping = True,
                    currentTypingMessage = currentTypingMessage p,
                    queued = [AppendMessage \<lparr>role = User, content = trim (input p)\<rparr>],
                    accumulatedContent = []\<rparr> reads
        in case fails of None \<Rightarrow> s2 | Some m \<Rightarrow> catch_error s2 m)"
  by (simp add: handleSubmit_def Let_def)

lemma trim_hi: "trim (input s0) = js ''hi''"
  by (simp add: s0_def trim_def js_def is_space_def)

lemma for_lines_blank: "for_lines nts s ([] # ls) = for_lines nts s ls"
  by (simp add: js_def)

lemma for_lines_sentinel:
  "for_lines nts s (js ''data: [DONE]'' # ls) =
     s\<lparr>isTyping := False, queued := queued s @ [AppendAccumulated], currentTypingMessage := []\<rparr>"
  by (rule for_lines_done) (simp_all add: js_def)

lemma for_lines_frame:
  assumes "frame_content nts p = Some c" and "p \<noteq> js ''[DONE]''"
  shows "for_lines nts s ((js ''data: '' @ p) # ls) =
     for_lines nts (s\<lparr>accumulatedContent := accumulatedContent s @ c,
                       currentTypingMessage := accumulatedContent s @ c\<rparr>) ls"
proof -
  have d: "drop 6 (js ''data: '' @ p) = p" by (simp add: js_def)
  have pre: "prefix (js ''data: '') (js ''data: '' @ p)" by simp
  from for_lines_content [OF pre, unfolded d, OF assms(2) assms(1)] show ?thesis .
qed

lemma for_lines_broken:
  assumes "frame_content nts p = None" and "p \<noteq> js ''[DONE]''"
  shows "for_lines nts s ((js ''data: '' @ p) # ls) = for_lines nts s ls"
proof -
  have d: "drop 6 (js ''data: '' @ p) = p" by (simp add: js_def)
  have pre: "prefix (js ''data: '') (js ''data: '' @ p)" by simp
  from for_lines_bad [OF pre, unfolded d, OF assms(2) assms(1)] show ?thesis .
qed

lemma stringify_not_sentinel: "stringify_content c \<noteq> js ''[DONE]''"
  by (simp add: stringify_content_def js_def)

lemma content_prop: "get_prop [(js ''content'', v)] (js ''content'') = v"
  by (simp add: get_prop_def)

lemma frame_content_string:
  "JSON_parse p = Some (JObject [(js ''content'', JString c)]) \<Longrightarrow> frame_content nts p = Some c"
  by (simp add: frame_content_def content_prop)











lemma for_lines_display:
  "\<exists>y. for_lines nts (s\<lparr>currentTypingMessage := x\<rparr>) ls =
        (for_lines nts s ls)\<lparr>currentTypingMessage := y\<rparr>"
proof (induction ls arbitrary: s x)
  case Nil
  show ?case by auto
next
  case (Cons l ls)
  show ?case
  proof (cases "prefix (js ''data: '') l")
    case False
    show ?thesis unfolding for_lines_other [OF False] by (rule Cons.IH)
  next
    case True
    show ?thesis
    proof (cases "drop 6 l = js ''[DONE]''")
      case d: True
      show ?thesis unfolding for_lines_done [OF True d]
        by (rule exI [of _ "[]"]) simp
    next
      case d: False
      show ?thesis
      proof (cases "frame_content nts (drop 6 l)")
        case None
        show ?thesis unfolding for_lines_bad [OF True d None] by (rule Cons.IH)
      next
        case (Some c)
        show ?thesis unfolding for_lines_content [OF True d Some]
          by (rule exI [of _ "currentTypingMessage (for_lines nts
                (s\<lparr>accumulatedContent := accumulatedContent s @ c,
                   currentTypingMessage := accumulatedContent s @ c\<rparr>) ls)"]) simp
      qed
    qed
  qed
qed

lemma for_lines_empty_frame:
  assumes "frame_content nts p = Some []" and "p \<noteq> js ''[DONE]''"
  shows "\<exists>y. for_lines nts s (pre @ (js ''data: '' @ p) # post) =
             (for_lines nts s (pre @ post))\<lparr>currentTypingMessage := y\<rparr>"
proof (induction pre arbitrary: s)
  case Nil
  have "for_lines nts s ((js ''data: '' @ p) # post) =
        for_lines nts (s\<lparr>currentTypingMessage := accumulatedContent s\<rparr>) post"
    unfolding for_lines_frame [OF assms] by simp
  then show ?case
    using for_lines_display [where nts = nts and s = s and x = "accumulatedContent s" and ls = post]
    by simp
next
  case (Cons l pre)
  show ?case
  proof (cases "prefix (js ''data: '') l")
    case False
    show ?thesis using Cons.IH [of s] by (simp add: for_lines_other [OF False] del: for_lines.simps)
  next
    case True
    show ?thesis
    proof (cases "drop 6 l = js ''[DONE]''")
      case d: True
      show ?thesis
        by (rule exI [of _ "[]"]) (simp add: for_lines_done [OF True d] del: for_lines.simps)
    next
      case d: False
      show ?thesis
      proof (cases "frame_content nts (drop 6 l)")
        case None
        show ?thesis using Cons.IH [of s]
          by (simp add: for_lines_bad [OF True d None] del: for_lines.simps)
      next
        case (Some c)
        show ?thesis
          using Cons.IH [of "s\<lparr>accumulatedContent := accumulatedContent s @ c,
                               currentTypingMessage := accumulatedContent s @ c\<rparr>"]
          by (simp add: for_lines_content [OF True d Some] del: for_lines.simps)
      qed
    qed
  qed
qed

lemma parse_empty: "JSON_parse (stringify_content []) = Some (JObject [(js ''content'', JString [])])"
  by code_simp

subsection \<open>The frames of C1\<close>

text \<open>
  The state after the first \<open>k\<close> of the four frames, from a state \<open>b\<close>, when React has
  not rendered since.
\<close>

definition after_frames :: "state \<Rightarrow> nat \<Rightarrow> state" where
  "after_frames b k =
     (if k = 0 then b
      else if k = 1 then b\<lparr>accumulatedContent := js ''Hello'', currentTypingMessage := js ''Hello''\<rparr>
      else if k = 2 then
        b\<lparr>accumulatedContent := js ''Hello'' @ js '' world'',
          currentTypingMessage := js ''Hello'' @ js '' world''\<rparr>
      else if k = 3 then
        b\<lparr>accumulatedContent := js ''Hello'' @ js '' world'' @ js ''!'',
          currentTypingMessage := js ''Hello'' @ js '' world'' @ js ''!''\<rparr>
      else
        b\<lparr>accumulatedContent := js ''Hello'' @ js '' world'' @ js ''!'',
          isTyping := False,
          queued := queued b @ [AppendAccumulated],
          currentTypingMessage := []\<rparr>)"

lemma parse_Hello:
  "JSON_parse (stringify_content (js ''Hello'')) = Some (JObject [(js ''content'', JString (js ''Hello''))])"
  by code_simp

lemma parse_world:
  "JSON_parse (stringify_content (js '' world'')) = Some (JObject [(js ''content'', JString (js '' world''))])"
  by code_simp

lemma parse_bang:
  "JSON_parse (stringify_content (js ''!'')) = Some (JObject [(js ''content'', JString (js ''!''))])"
  by code_simp

lemmas hello_steps =
  for_lines_frame [OF frame_content_string [OF parse_Hello] stringify_not_sentinel]
  for_lines_frame [OF frame_content_string [OF parse_world] stringify_not_sentinel]
  for_lines_frame [OF frame_content_string [OF parse_bang] stringify_not_sentinel]
  for_lines_sentinel for_lines_blank

abbreviation "chunk_H \<equiv> utf8_encode (sse_frame (js ''Hello''))"
abbreviation "chunk_W \<equiv> utf8_encode (sse_frame (js '' world''))"
abbreviation "chunk_B \<equiv> utf8_encode (sse_frame (js ''!''))"
abbreviation "chunk_D \<equiv> utf8_encode done_frame"
abbreviation "line_H \<equiv> js ''data: '' @ stringify_content (js ''Hello'')"
abbreviation "line_W \<equiv> js ''data: '' @ stringify_content (js '' world'')"
abbreviation "line_B \<equiv> js ''data: '' @ stringify_content (js ''!'')"
abbreviation "line_D \<equiv> js ''data: [DONE]''"

lemma lines_0: "split_blank (TextDecoder_decode []) = [[]]" by (simp add: text_defs)
lemma lines_H: "split_blank (TextDecoder_decode chunk_H) = [line_H, []]" by (simp add: text_defs)
lemma lines_W: "split_blank (TextDecoder_decode chunk_W) = [line_W, []]" by (simp add: text_defs)
lemma lines_B: "split_blank (TextDecoder_decode chunk_B) = [line_B, []]" by (simp add: text_defs)
lemma lines_D: "split_blank (TextDecoder_decode chunk_D) = [line_D, []]" by (simp add: text_defs)
lemma lines_HW: "split_blank (TextDecoder_decode (chunk_H @ chunk_W)) = [line_H, line_W, []]" by (simp add: text_defs)
lemma lines_WB: "split_blank (TextDecoder_decode (chunk_W @ chunk_B)) = [line_W, line_B, []]" by (simp add: text_defs)
lemma lines_BD: "split_blank (TextDecoder_decode (chunk_B @ chunk_D)) = [line_B, line_D, []]" by (simp add: text_defs)
lemma lines_HWB: "split_blank (TextDecoder_decode (chunk_H @ chunk_W @ chunk_B)) = [line_H, line_W, line_B, []]" by (simp add: text_defs)
lemma lines_WBD: "split_blank (TextDecoder_decode (chunk_W @ chunk_B @ chunk_D)) = [line_W, line_B, line_D, []]" by (simp add: text_defs)
lemma lines_HWBD: "split_blank (TextDecoder_decode (chunk_H @ chunk_W @ chunk_B @ chunk_D)) = [line_H, line_W, line_B, line_D, []]" by (simp add: text_defs)

lemmas hello_lines =
  lines_0 lines_H lines_W lines_B lines_D lines_HW lines_WB lines_BD lines_HWB lines_WBD lines_HWBD

lemma hello_table:
  assumes "accumulatedContent b = []" and "k + j \<le> 4"
  shows "for_lines nts (after_frames b k)
           (split_blank (TextDecoder_decode (concat (take j (drop k hello_frames))))) =
         after_frames b (k + j)"
proof -
  from assms(2) have k: "k = 0 \<or> k = 1 \<or> k = 2 \<or> k = 3 \<or> k = 4" by arith
  from assms(2) have j: "j = 0 \<or> j = 1 \<or> j = 2 \<or> j = 3 \<or> j = 4" by arith
  from k j assms show ?thesis
    by (elim disjE)
       (simp_all add: hello_frames_def after_frames_def hello_lines hello_steps
          del: for_lines.simps(2))
qed

lemma length_hello_frames: "length hello_frames = 4"
  by (simp add: hello_frames_def)

lemma resolve_fixed:
  "AppendAccumulated \<notin> set q \<Longrightarrow> map (resolve x) q = map (resolve y) q"
proof (induction q)
  case Nil
  show ?case by simp
next
  case (Cons u q)
  then show ?case by (cases u) simp_all
qed

lemma shown_render: "shown (render s) = shown s"
  by (simp add: shown_def render_def)

lemma render_after_frames:
  assumes "AppendAccumulated \<notin> set (queued b)" and "k < 4"
  shows "render (after_frames b k) = after_frames (render b) k"
proof -
  from assms(2) have k: "k = 0 \<or> k = 1 \<or> k = 2 \<or> k = 3" by arith
  define fixed where "fixed = map (resolve []) (queued b)"
  have r: "map (resolve x) (queued b) = fixed" for x
    unfolding fixed_def by (rule resolve_fixed [OF assms(1)])
  from k show ?thesis
    by (elim disjE) (simp_all add: after_frames_def render_def r)
qed

lemma shown_after_render:
  assumes "AppendAccumulated \<notin> set (queued b)"
  shows "shown (after_frames (render b) 4) = shown (after_frames b 4)"
proof -
  define fixed where "fixed = map (resolve []) (queued b)"
  have r: "map (resolve x) (queued b) = fixed" for x
    unfolding fixed_def by (rule resolve_fixed [OF assms(1)])
  show ?thesis
    by (simp add: after_frames_def render_def shown_def r)
qed

lemma empty_reads:
  "concat (map snd gs) = [] \<Longrightarrow>
   shown (read_loop nts s (map (\<lambda>(r, g). Read r (concat g)) gs)) = shown s"
proof (induction gs arbitrary: s)
  case Nil
  show ?case by simp
next
  case (Cons x gs)
  obtain r g where x: "x = (r, g)" by (cases x)
  from Cons.prems have g: "g = []" and rest: "concat (map snd gs) = []"
    by (simp_all add: x)
  have "shown (read_loop nts s (map (\<lambda>(r, g). Read r (concat g)) (x # gs))) =
        shown (read_loop nts (if r then render s else s) (map (\<lambda>(r, g). Read r (concat g)) gs))"
    by (simp add: x g lines_0 for_lines_blank del: for_lines.simps(2))
  also have "\<dots> = shown (if r then render s else s)"
    by (rule Cons.IH [OF rest])
  also have "\<dots> = shown s"
    by (simp add: shown_render)
  finally show ?case .
qed

lemma hello_read_loop:
  "accumulatedContent b = [] \<Longrightarrow> AppendAccumulated \<notin> set (queued b) \<Longrightarrow>
   concat (map snd gs) = drop k hello_frames \<Longrightarrow> k \<le> 4 \<Longrightarrow>
   shown (read_loop nts (after_frames b k) (map (\<lambda>(r, g). Read r (concat g)) gs)) =
     shown (after_frames b 4)"
proof (induction gs arbitrary: k b)
  case Nil
  then have "drop k hello_frames = []" by simp
  then have "4 \<le> k" by (simp add: length_hello_frames)
  with Nil.prems(4) have "k = 4" by simp
  then show ?case by simp
next
  case (Cons x gs)
  obtain r g where x: "x = (r, g)" by (cases x)
  show ?case
  proof (cases "k = 4")
    case True
    with Cons.prems(3) have "concat (map snd (x # gs)) = []"
      by (simp add: length_hello_frames)
    from empty_reads [OF this] show ?thesis unfolding True .
  next
    case False
    with Cons.prems(4) have k: "k < 4" by simp
    define j where "j = length g"
    define b' where "b' = (if r then render b else b)"
    from Cons.prems(3) have e: "g @ concat (map snd gs) = drop k hello_frames"
      by (simp add: x)
    then have g: "g = take j (drop k hello_frames)"
      and rest: "concat (map snd gs) = drop j (drop k hello_frames)"
      unfolding j_def by (simp_all add: append_eq_conv_conj)
    from e have "length g \<le> length (drop k hello_frames)"
      by (metis length_append le_add1)
    then have kj: "k + j \<le> 4"
      using Cons.prems(4) by (simp add: j_def length_hello_frames)
    from rest have rest': "concat (map snd gs) = drop (k + j) hello_frames"
      by (simp add: add.commute)
    have a': "accumulatedContent b' = []"
      using Cons.prems(1) by (simp add: b'_def render_def)
    have q': "AppendAccumulated \<notin> set (queued b')"
      using Cons.prems(2) by (simp add: b'_def render_def)
    have s: "(if r then render (after_frames b k) else after_frames b k) = after_frames b' k"
      by (simp add: b'_def render_after_frames [OF Cons.prems(2) k])
    have "read_loop nts (after_frames b k) (map (\<lambda>(r, g). Read r (concat g)) (x # gs)) =
          read_loop nts (after_frames b' (k + j)) (map (\<lambda>(r, g). Read r (concat g)) gs)"
      unfolding x g by (simp add: s hello_table [OF a' kj] del: for_lines.simps)
    then have "shown (read_loop nts (after_frames b k) (map (\<lambda>(r, g). Read r (concat g)) (x # gs))) =
          shown (after_frames b' 4)"
      using Cons.IH [OF a' q' rest' kj] by simp
    also have "\<dots> = shown (after_frames b 4)"
      by (simp add: b'_def shown_after_render [OF Cons.prems(2)])
    finally show ?thesis .
  qed
qed

lemma parse_Hel: \<open>JSON_parse (js ''{"content":"He'') = None\<close>
  by code_simp

lemma lines_cut_1:
  \<open>split_blank (TextDecoder_decode (take 20 (concat hello_frames))) = [js ''data: '' @ js ''{"content":"He'']\<close>
  by (simp add: text_defs hello_frames_def)

lemma lines_cut_2:
  \<open>split_blank (TextDecoder_decode (drop 20 (concat hello_frames))) =
     [js ''llo"}'', js ''data: '' @ stringify_content (js '' world''),
      js ''data: '' @ stringify_content (js ''!''), js ''data: [DONE]'', []]\<close>
  by (simp add: text_defs hello_frames_def)

text \<open>
  C1, as stated, fails: nothing is carried from one read to the next, so a frame cut by a
  chunk boundary is lost.  Cut after 20 bytes, the stream finalizes \<open> world!\<close>, whether
  React renders between the reads or not.
\<close>

theorem split_frame_counterexample:
  \<open>concat [take 20 (concat hello_frames), drop 20 (concat hello_frames)] = concat hello_frames \<and>
   messages (handleSubmit (\<lambda>n. n)
     (\<lambda>_. Response True (Some (Body
        [Read True (take 20 (concat hello_frames)), Read True (drop 20 (concat hello_frames))] None))) s0) =
     [\<lparr>role = User, content = js ''hi''\<rparr>, \<lparr>role = Assistant, content = js '' world!''\<rparr>] \<and>
   messages (handleSubmit (\<lambda>n. n)
     (\<lambda>_. Response True (Some (Body
        [Read False (take 20 (concat hello_frames)), Read False (drop 20 (concat hello_frames))] None))) s0) =
     [\<lparr>role = User, content = js ''hi''\<rparr>, \<lparr>role = Assistant, content = js '' world!''\<rparr>] \<and>
   js '' world!'' \<noteq> js ''Hello world!''\<close>
proof -
  have t: "trim (input s0) \<noteq> []"
    by (simp add: trim_hi js_def)
  have n: \<open>js ''{"content":"He'' \<noteq> js ''[DONE]''\<close>
    by (simp add: js_def)
  have o: \<open>\<not> prefix (js ''data: '') (js ''llo"}'')\<close>
    by (simp add: js_def)
  have w: "js '' world'' @ js ''!'' = js '' world!''"
    by (simp add: js_def)
  have d: "js '' world!'' \<noteq> js ''Hello world!''"
    by (simp add: js_def)
  have x: "messages (handleSubmit (\<lambda>n. n)
     (\<lambda>_. Response True (Some (Body
        [Read True (take 20 (concat hello_frames)), Read True (drop 20 (concat hello_frames))] None))) s0) =
     [\<lparr>role = User, content = js ''hi''\<rparr>, \<lparr>role = Assistant, content = js '' world!''\<rparr>]"
    unfolding handleSubmit_streaming [OF t] Let_def trim_hi
    by (simp add: lines_cut_1 lines_cut_2 hello_steps for_lines_other [OF o]
          for_lines_broken [OF _ n] frame_content_def parse_Hel w s0_def shown_def render_def
          del: for_lines.simps(2))
  have y: "messages (handleSubmit (\<lambda>n. n)
     (\<lambda>_. Response True (Some (Body
        [Read False (take 20 (concat hello_frames)), Read False (drop 20 (concat hello_frames))] None))) s0) =
     [\<lparr>role = User, content = js ''hi''\<rparr>, \<lparr>role = Assistant, content = js '' world!''\<rparr>]"
    unfolding handleSubmit_streaming [OF t] Let_def trim_hi
    by (simp add: lines_cut_1 lines_cut_2 hello_steps for_lines_other [OF o]
          for_lines_broken [OF _ n] frame_content_def parse_Hel w s0_def shown_def
          del: for_lines.simps(2))
  from x y d show ?thesis by simp
qed

text \<open>
  C1, amended.  For every partition of the byte stream into read chunks whose boundaries
  are frame boundaries (each chunk is a run of whole frames, possibly none), and whenever
  React renders in between, the message finalized at the sentinel is \<open>Hello world!\<close>.
\<close>

theorem aligned_chunks_finalize_hello_world:
  assumes "concat (map snd gs) = hello_frames" and "trim (input p) \<noteq> []"
  shows "messages (handleSubmit nts
           (\<lambda>_. Response True (Some (Body (map (\<lambda>(r, g). Read r (concat g)) gs) None))) p) =
           messages p @ [\<lparr>role = User, content = trim (input p)\<rparr>,
                         \<lparr>role = Assistant, content = js ''Hello world!''\<rparr>]"
proof -
  let ?b = "\<lparr>input = [], messages = messages p, isTyping = True,
              currentTypingMessage = currentTypingMessage p,
              queued = [AppendMessage \<lparr>role = User, content = trim (input p)\<rparr>],
              accumulatedContent = []\<rparr>"
  have a: "accumulatedContent ?b = []" by simp
  have q: "AppendAccumulated \<notin> set (queued ?b)" by simp
  from assms(1) have c: "concat (map snd gs) = drop 0 hello_frames" by simp
  have "shown (read_loop nts (after_frames ?b 0) (map (\<lambda>(r, g). Read r (concat g)) gs)) =
        shown (after_frames ?b 4)"
    by (rule hello_read_loop [OF a q c]) simp
  then have "shown (read_loop nts ?b (map (\<lambda>(r, g). Read r (concat g)) gs)) = shown (after_frames ?b 4)"
    by (simp add: after_frames_def)
  moreover have "js ''Hello'' @ js '' world'' @ js ''!'' = js ''Hello world!''"
    by (simp add: js_def)
  ultimately show ?thesis
    unfolding handleSubmit_streaming [OF assms(2)] Let_def
    by (simp add: after_frames_def shown_def)
qed

theorem aligned_chunks_finalize_hello_world_witness:
  "concat (map snd
     [(False, [utf8_encode (sse_frame (js ''Hello''))]), (True, []),
      (False, [utf8_encode (sse_frame (js '' world'')), utf8_encode (sse_frame (js ''!''))]),
      (True, [utf8_encode done_frame])]) = hello_frames \<and>
   trim (input s0) \<noteq> [] \<and>
   messages (handleSubmit (\<lambda>n. n)
     (\<lambda>_. Response True (Some (Body
        [Read False (utf8_encode (sse_frame (js ''Hello''))), Read True [],
         Read False (utf8_encode (sse_frame (js '' world'')) @ utf8_encode (sse_frame (js ''!''))),
         Read True (utf8_encode done_frame)] None))) s0) =
     [\<lparr>role = User, content = js ''hi''\<rparr>, \<lparr>role = Assistant, content = js ''Hello world!''\<rparr>]"
proof -
  have c: "concat (map snd
     [(False, [utf8_encode (sse_frame (js ''Hello''))]), (True, []),
      (False, [utf8_encode (sse_frame (js '' world'')), utf8_encode (sse_frame (js ''!''))]),
      (True, [utf8_encode done_frame])]) = hello_frames"
    by (simp add: hello_frames_def)
  have t: "trim (input s0) \<noteq> []"
    by (simp add: trim_hi js_def)
  from aligned_chunks_finalize_hello_world [OF c t, of "\<lambda>n. n"] c t
  show ?thesis by (simp add: trim_hi) (simp add: s0_def)
qed

section \<open>Properties of the decoder\<close>

lemma cont_mod: "r < 64 \<Longrightarrow> (128 + r) mod 64 = (r::nat)"
proof -
  assume "r < 64"
  have "(2 * 64 + r) mod 64 = r mod 64" by (rule mod_mult_self3)
  with \<open>r < 64\<close> show ?thesis by simp
qed
lemma lead2_mod: "q < 32 \<Longrightarrow> (192 + q) mod 32 = (q::nat)"
proof -
  assume "q < 32"
  have "(6 * 32 + q) mod 32 = q mod 32" by (rule mod_mult_self3)
  with \<open>q < 32\<close> show ?thesis by simp
qed
lemma lead3_mod: "q < 16 \<Longrightarrow> (224 + q) mod 16 = (q::nat)"
proof -
  assume "q < 16"
  have "(14 * 16 + q) mod 16 = q mod 16" by (rule mod_mult_self3)
  with \<open>q < 16\<close> show ?thesis by simp
qed
lemma lead4_mod: "q < 8 \<Longrightarrow> (240 + q) mod 8 = (q::nat)"
proof -
  assume "q < 8"
  have "(30 * 8 + q) mod 8 = q mod 8" by (rule mod_mult_self3)
  with \<open>q < 8\<close> show ?thesis by simp
qed
lemma digits:
  fixes cp :: nat
  shows "cp div 4096 = cp div 64 div 64" and "cp div 262144 = cp div 64 div 64 div 64"
proof -
  have "cp div (64 * 64) = cp div 64 div 64" by (rule div_mult2_eq)
  then show "cp div 4096 = cp div 64 div 64" by simp
  have "cp div (64 * (64 * 64)) = cp div 64 div (64 * 64)" by (rule div_mult2_eq)
  also have "\<dots> = cp div 64 div 64 div 64" by (rule div_mult2_eq)
  finally show "cp div 262144 = cp div 64 div 64 div 64" by simp
qed

lemma unat_byte: "n < 256 \<Longrightarrow> unat (of_nat n :: 8 word) = n"
  by (simp add: unat_of_nat)

lemma dec_start:
  assumes "n < 256"
  shows "utf8_decode Start (of_nat n # bs) =
     (if n \<le> 0x7F then n # utf8_decode Start bs
      else if 0xC2 \<le> n \<and> n \<le> 0xDF then utf8_decode (Need (n mod 32) 1 0x80 0xBF) bs
      else if 0xE0 \<le> n \<and> n \<le> 0xEF then
        utf8_decode (Need (n mod 16) 2 (if n = 0xE0 then 0xA0 else 0x80)
                       (if n = 0xED then 0x9F else 0xBF)) bs
      else if 0xF0 \<le> n \<and> n \<le> 0xF4 then
        utf8_decode (Need (n mod 8) 3 (if n = 0xF0 then 0x90 else 0x80)
                       (if n = 0xF4 then 0x8F else 0xBF)) bs
      else 0xFFFD # utf8_decode Start bs)"
  by (simp add: word_le_nat_alt word_unat_eq_iff unat_byte [OF assms])

lemma dec_need:
  assumes "n < 256"
  shows "utf8_decode (Need cp k lo hi) (of_nat n # bs) =
     (if n < unat lo \<or> unat hi < n then 0xFFFD # utf8_decode Start (of_nat n # bs)
      else if k \<le> 1 then (cp * 64 + n mod 64) # utf8_decode Start bs
      else utf8_decode (Need (cp * 64 + n mod 64) (k - 1) 0x80 0xBF) bs)"
  by (simp add: word_less_nat_alt unat_byte [OF assms])

lemma cont_step:
  assumes "r < 64" and "unat lo \<le> 128 + r" and "128 + r \<le> unat hi"
  shows "utf8_decode (Need cp k lo hi) (of_nat (128 + r) # bs) =
     (if k \<le> 1 then (cp * 64 + r) # utf8_decode Start bs
      else utf8_decode (Need (cp * 64 + r) (k - 1) 0x80 0xBF) bs)"
proof -
  from assms(1) have n: "128 + r < 256" by simp
  from assms(2,3) have c: "\<not> (128 + r < unat lo \<or> unat hi < 128 + r)" by simp
  show ?thesis
    unfolding dec_need [OF n] using c by (simp only: if_False cont_mod [OF assms(1)])
qed

lemma cont_plain:
  assumes "r < 64"
  shows "utf8_decode (Need cp k 0x80 0xBF) (of_nat (128 + r) # bs) =
     (if k \<le> 1 then (cp * 64 + r) # utf8_decode Start bs
      else utf8_decode (Need (cp * 64 + r) (k - 1) 0x80 0xBF) bs)"
proof -
  have l: "unat (0x80 :: 8 word) \<le> 128 + r" by simp
  from assms have h: "128 + r \<le> unat (0xBF :: 8 word)" by simp
  show ?thesis by (rule cont_step [OF assms l h])
qed

lemma dec1: "cp < 128 \<Longrightarrow> utf8_decode Start (of_nat cp # bs) = cp # utf8_decode Start bs"
proof -
  assume a: "cp < 128"
  then have n: "cp < 256" by simp
  from a show ?thesis unfolding dec_start [OF n] by simp
qed

lemma dec2:
  assumes "2 \<le> q" and "q < 32" and "r < 64"
  shows "utf8_decode Start (of_nat (192 + q) # of_nat (128 + r) # bs) =
         (q * 64 + r) # utf8_decode Start bs"
proof -
  from assms have n: "192 + q < 256" by simp
  from assms have c: "\<not> 192 + q \<le> 0x7F" "0xC2 \<le> 192 + q \<and> 192 + q \<le> 0xDF" by simp_all
  have s: "utf8_decode Start (of_nat (192 + q) # of_nat (128 + r) # bs) =
      utf8_decode (Need q 1 0x80 0xBF) (of_nat (128 + r) # bs)"
    unfolding dec_start [OF n] using c by (simp only: if_True if_False simp_thms lead2_mod [OF assms(2)])
  show ?thesis unfolding s cont_plain [OF assms(3)] by (simp del: of_nat_add utf8_decode.simps)
qed

lemma dec3:
  assumes "q < 16" and "r2 < 64" and "r < 64"
    and "q = 0 \<longrightarrow> 32 \<le> r2" and "q = 13 \<longrightarrow> r2 < 32"
  shows "utf8_decode Start (of_nat (224 + q) # of_nat (128 + r2) # of_nat (128 + r) # bs) =
         ((q * 64 + r2) * 64 + r) # utf8_decode Start bs"
proof -
  from assms have n: "224 + q < 256" by simp
  define lo :: "8 word" where "lo = (if 224 + q = 0xE0 then 0xA0 else 0x80)"
  define hi :: "8 word" where "hi = (if 224 + q = 0xED then 0x9F else 0xBF)"
  from assms have c: "\<not> 224 + q \<le> 0x7F" "\<not> (0xC2 \<le> 224 + q \<and> 224 + q \<le> 0xDF)"
    "0xE0 \<le> 224 + q \<and> 224 + q \<le> 0xEF" by simp_all
  have s: "utf8_decode Start (of_nat (224 + q) # of_nat (128 + r2) # of_nat (128 + r) # bs) =
      utf8_decode (Need q 2 lo hi) (of_nat (128 + r2) # of_nat (128 + r) # bs)"
    unfolding dec_start [OF n] lo_def hi_def using c
    by (simp only: if_True if_False simp_thms lead3_mod [OF assms(1)])
  from assms(2,4) have l: "unat lo \<le> 128 + r2" unfolding lo_def by auto
  from assms(2,5) have h: "128 + r2 \<le> unat hi" unfolding hi_def by auto
  show ?thesis unfolding s cont_step [OF assms(2) l h] by (simp add: cont_plain [OF assms(3)] del: of_nat_add utf8_decode.simps)
qed

lemma dec4:
  assumes "q < 5" and "r3 < 64" and "r2 < 64" and "r < 64"
    and "q = 0 \<longrightarrow> 16 \<le> r3" and "q = 4 \<longrightarrow> r3 < 16"
  shows "utf8_decode Start
           (of_nat (240 + q) # of_nat (128 + r3) # of_nat (128 + r2) # of_nat (128 + r) # bs) =
         (((q * 64 + r3) * 64 + r2) * 64 + r) # utf8_decode Start bs"
proof -
  from assms have n: "240 + q < 256" by simp
  define lo :: "8 word" where "lo = (if 240 + q = 0xF0 then 0x90 else 0x80)"
  define hi :: "8 word" where "hi = (if 240 + q = 0xF4 then 0x8F else 0xBF)"
  from assms have c: "\<not> 240 + q \<le> 0x7F" "\<not> (0xC2 \<le> 240 + q \<and> 240 + q \<le> 0xDF)"
    "\<not> (0xE0 \<le> 240 + q \<and> 240 + q \<le> 0xEF)" "0xF0 \<le> 240 + q \<and> 240 + q \<le> 0xF4" by simp_all
  from assms(1) have q8: "q < 8" by simp
  have s: "utf8_decode Start
           (of_nat (240 + q) # of_nat (128 + r3) # of_nat (128 + r2) # of_nat (128 + r) # bs) =
      utf8_decode (Need q 3 lo hi) (of_nat (128 + r3) # of_nat (128 + r2) # of_nat (128 + r) # bs)"
    unfolding dec_start [OF n] lo_def hi_def using c
    by (simp only: if_True if_False simp_thms lead4_mod [OF q8])
  from assms(2,5) have l: "unat lo \<le> 128 + r3" unfolding lo_def by auto
  from assms(2,6) have h: "128 + r3 \<le> unat hi" unfolding hi_def by auto
  show ?thesis unfolding s cont_step [OF assms(2) l h]
    by (simp add: cont_plain [OF assms(3)] cont_plain [OF assms(4)] del: of_nat_add utf8_decode.simps)
qed

lemma utf8_1:
  assumes "cp < 0x80"
  shows "utf8_decode Start (utf8 cp @ bs) = cp # utf8_decode Start bs"
proof -
  from assms have u: "utf8 cp = [of_nat cp]" by (simp add: utf8_def)
  from assms have "cp < 128" by simp
  then show ?thesis unfolding u by (simp add: dec1 del: utf8_decode.simps)
qed

lemma utf8_2:
  assumes "0x80 \<le> cp" and "cp < 0x800"
  shows "utf8_decode Start (utf8 cp @ bs) = cp # utf8_decode Start bs"
proof -
  define q where "q = cp div 64"
  define r where "r = cp mod 64"
  have e: "cp = q * 64 + r" unfolding q_def r_def by simp
  have r: "r < 64" unfolding r_def by simp
  from assms e r have q: "2 \<le> q" "q < 32" by arith+
  from assms have u: "utf8 cp = [of_nat (192 + q), of_nat (128 + r)]"
    by (simp add: utf8_def q_def r_def del: of_nat_add)
  show ?thesis unfolding u using dec2 [OF q r, of bs] e by (simp del: utf8_decode.simps of_nat_add)
qed

lemma utf8_3:
  assumes "0x800 \<le> cp" and "cp < 0x10000" and "\<not> (0xD800 \<le> cp \<and> cp \<le> 0xDFFF)"
  shows "utf8_decode Start (utf8 cp @ bs) = cp # utf8_decode Start bs"
proof -
  define d1 where "d1 = cp div 64"
  define r where "r = cp mod 64"
  define q where "q = d1 div 64"
  define r2 where "r2 = d1 mod 64"
  have e: "cp = d1 * 64 + r" "d1 = q * 64 + r2" unfolding d1_def r_def q_def r2_def by simp_all
  have r: "r < 64" "r2 < 64" unfolding r_def r2_def by simp_all
  from assms e r have q: "q < 16" by arith
  from assms e r have b: "q = 0 \<longrightarrow> 32 \<le> r2" "q = 13 \<longrightarrow> r2 < 32" by arith+
  from assms have u: "utf8 cp = [of_nat (224 + q), of_nat (128 + r2), of_nat (128 + r)]"
    by (simp add: utf8_def digits q_def d1_def r_def r2_def del: of_nat_add)
  from e have c: "(q * 64 + r2) * 64 + r = cp" by simp
  show ?thesis unfolding u using dec3 [OF q r(2) r(1) b, of bs] c
    by (simp del: utf8_decode.simps of_nat_add)
qed

lemma utf8_4:
  assumes "0x10000 \<le> cp" and "cp < 0x110000"
  shows "utf8_decode Start (utf8 cp @ bs) = cp # utf8_decode Start bs"
proof -
  define d1 where "d1 = cp div 64"
  define r where "r = cp mod 64"
  define d2 where "d2 = d1 div 64"
  define r2 where "r2 = d1 mod 64"
  define q where "q = d2 div 64"
  define r3 where "r3 = d2 mod 64"
  have e: "cp = d1 * 64 + r" "d1 = d2 * 64 + r2" "d2 = q * 64 + r3"
    unfolding d1_def r_def d2_def r2_def q_def r3_def by simp_all
  have r: "r < 64" "r2 < 64" "r3 < 64" unfolding r_def r2_def r3_def by simp_all
  from assms e r have q: "q < 5" by arith
  from assms e r have b: "q = 0 \<longrightarrow> 16 \<le> r3" "q = 4 \<longrightarrow> r3 < 16" by arith+
  from assms have u: "utf8 cp = [of_nat (240 + q), of_nat (128 + r3), of_nat (128 + r2), of_nat (128 + r)]"
    by (simp add: utf8_def digits q_def d1_def d2_def r_def r2_def r3_def del: of_nat_add)
  from e have c: "((q * 64 + r3) * 64 + r2) * 64 + r = cp" by simp
  show ?thesis unfolding u using dec4 [OF q r(3) r(2) r(1) b, of bs] c
    by (simp del: utf8_decode.simps of_nat_add)
qed

lemma utf8_scalar:
  assumes "scalar cp"
  shows "utf8_decode Start (utf8 cp @ bs) = cp # utf8_decode Start bs"
proof -
  from assms have c: "cp < 0x110000" "\<not> (0xD800 \<le> cp \<and> cp \<le> 0xDFFF)"
    by (simp_all add: scalar_def)
  consider "cp < 0x80" | "0x80 \<le> cp" "cp < 0x800" | "0x800 \<le> cp" "cp < 0x10000" | "0x10000 \<le> cp"
    by linarith
  then show ?thesis
  proof cases
    case 1 then show ?thesis by (rule utf8_1)
  next
    case 2 then show ?thesis by (rule utf8_2)
  next
    case 3 then show ?thesis using c(2) by (rule utf8_3)
  next
    case 4 then show ?thesis using c(1) by (rule utf8_4)
  qed
qed

lemma utf8_decode_encode:
  "(\<forall>cp\<in>set cps. scalar cp) \<Longrightarrow> utf8_decode Start (concat (map utf8 cps)) = cps"
  by (induction cps) (simp_all add: utf8_scalar del: utf8_decode.simps(3,4))

lemma unit_bound: "unat (c :: 16 word) < 65536"
  using unsigned_less [of c, where ?'a = nat] by simp

lemma is_high_nat: "is_high c \<longleftrightarrow> 0xD800 \<le> unat c \<and> unat c \<le> 0xDBFF"
  by (simp add: is_high_def word_le_nat_alt)

lemma is_low_nat: "is_low c \<longleftrightarrow> 0xDC00 \<le> unat c \<and> unat c \<le> 0xDFFF"
  by (simp add: is_low_def word_le_nat_alt)

lemma single_unit:
  assumes "\<not> is_high c" and "\<not> is_low c"
  shows "scalar (unat c)" and "utf16 (unat c) = [c]"
proof -
  from assms unit_bound [of c] show "scalar (unat c)"
    unfolding scalar_def is_high_nat is_low_nat by arith
  from unit_bound [of c] show "utf16 (unat c) = [c]"
    by (simp add: utf16_def)
qed

lemma pair_units:
  assumes "is_high c" and "is_low d"
  shows "scalar (0x10000 + (unat c - 0xD800) * 0x400 + (unat d - 0xDC00))"
    and "utf16 (0x10000 + (unat c - 0xD800) * 0x400 + (unat d - 0xDC00)) = [c, d]"
proof -
  define h where "h = unat c - 0xD800"
  define l where "l = unat d - 0xDC00"
  from assms have h: "h < 0x400" "unat c = 0xD800 + h"
    unfolding h_def is_high_nat by arith+
  from assms have l: "l < 0x400" "unat d = 0xDC00 + l"
    unfolding l_def is_low_nat by arith+
  from h(1) l(1) show "scalar (0x10000 + (unat c - 0xD800) * 0x400 + (unat d - 0xDC00))"
    unfolding scalar_def h_def [symmetric] l_def [symmetric] by arith
  have dv: "(h * 0x400 + l) div 0x400 = h" using l(1) by simp
  have md: "(h * 0x400 + l) mod 0x400 = l" using l(1) by simp
  have "utf16 (0x10000 + h * 0x400 + l) = [of_nat (0xD800 + h), of_nat (0xDC00 + l)]"
    unfolding utf16_def using dv md by (simp del: of_nat_add)
  also have "of_nat (0xD800 + h) = c" unfolding h(2) [symmetric] by simp
  also have "of_nat (0xDC00 + l) = d" unfolding l(2) [symmetric] by simp
  finally show "utf16 (0x10000 + (unat c - 0xD800) * 0x400 + (unat d - 0xDC00)) = [c, d]"
    unfolding h_def l_def .
qed

lemma code_points_scalar: "well_formed s \<Longrightarrow> \<forall>cp\<in>set (code_points s). scalar cp"
proof (induction s rule: well_formed.induct)
  case 1
  show ?case by simp
next
  case (2 c)
  then show ?case by (simp add: single_unit)
next
  case (3 c d cs)
  show ?case
  proof (cases "is_high c")
    case True
    with 3 show ?thesis by (simp add: pair_units)
  next
    case False
    with 3 show ?thesis by (simp add: single_unit)
  qed
qed

lemma utf16_code_points: "well_formed s \<Longrightarrow> concat (map utf16 (code_points s)) = s"
proof (induction s rule: well_formed.induct)
  case 1
  show ?case by simp
next
  case (2 c)
  then show ?case by (simp add: single_unit)
next
  case (3 c d cs)
  show ?case
  proof (cases "is_high c")
    case True
    with 3 show ?thesis by (simp add: pair_units)
  next
    case False
    with 3 show ?thesis by (simp add: single_unit)
  qed
qed

lemma utf8_bom: "utf8_decode Start ([0xEF, 0xBB, 0xBF] @ bs) = 0xFEFF # utf8_decode Start bs"
  by simp

lemma first_code_point:
  assumes "well_formed (c # cs)"
  shows "\<exists>cp cps. code_points (c # cs) = cp # cps \<and> (cp = 0xFEFF \<longrightarrow> c = 0xFEFF)"
proof (cases cs)
  case Nil
  have "unat c = 0xFEFF \<longrightarrow> c = 0xFEFF" by (simp add: word_unat_eq_iff)
  with Nil assms show ?thesis by simp
next
  case (Cons d ds)
  show ?thesis
  proof (cases "is_high c \<and> is_low d")
    case True
    then show ?thesis unfolding Cons by simp
  next
    case False
    have "unat c = 0xFEFF \<longrightarrow> c = 0xFEFF" by (simp add: word_unat_eq_iff)
    with False assms show ?thesis unfolding Cons by (auto split: if_splits)
  qed
qed

lemma no_bom:
  assumes "well_formed s" and "\<not> prefix [0xFEFF] s"
  shows "strip_bom (utf8_encode s) = utf8_encode s"
proof (cases s)
  case Nil
  then show ?thesis by (simp add: strip_bom_def utf8_encode_def)
next
  case (Cons c cs)
  from assms(1) obtain cp cps where p: "code_points (c # cs) = cp # cps"
    and f: "cp = 0xFEFF \<longrightarrow> c = 0xFEFF"
    unfolding Cons using first_code_point by blast
  from code_points_scalar [OF assms(1)] have s: "scalar cp" unfolding Cons p by simp
  have "\<not> prefix [0xEF, 0xBB, 0xBF] (utf8_encode s)"
  proof
    assume "prefix [0xEF, 0xBB, 0xBF] (utf8_encode s)"
    then obtain r where r: "utf8_encode s = [0xEF, 0xBB, 0xBF] @ r" by (auto simp: prefix_def)
    have "utf8_encode s = utf8 cp @ concat (map utf8 cps)"
      unfolding Cons utf8_encode_def p by simp
    then have "utf8_decode Start (utf8_encode s) = cp # utf8_decode Start (concat (map utf8 cps))"
      by (simp only: utf8_scalar [OF s])
    moreover have "utf8_decode Start (utf8_encode s) = 0xFEFF # utf8_decode Start r"
      unfolding r by (rule utf8_bom)
    ultimately have "cp = 0xFEFF" by simp
    with f have "c = 0xFEFF" by simp
    with assms(2) show False unfolding Cons by simp
  qed
  then show ?thesis by (simp add: strip_bom_def)
qed

lemma cut_lines_1:
  \<open>split_blank (TextDecoder_decode (take 19 e_acute_stream)) =
     [js ''data: '' @ (js ''{"content":"'' @ [0xFFFD])]\<close>
  by (simp add: text_defs e_acute_stream_def)

lemma cut_lines_2:
  \<open>split_blank (TextDecoder_decode (drop 19 e_acute_stream)) =
     [0xFFFD # js ''"}'', js ''data: [DONE]'', []]\<close>
  by (simp add: text_defs e_acute_stream_def)

lemma parse_cut: \<open>JSON_parse (js ''{"content":"'' @ [0xFFFD]) = None\<close>
  by code_simp

text \<open>
  C2, as stated, fails: every read is decoded by a decoder of its own, flushed at the end
  of the read.  The two bytes of U+00E9, read apart, decode to two replacement characters;
  in the stream cut between them the frame is lost and the finalized message is empty.
\<close>

theorem split_character_counterexample:
  \<open>utf8_encode [0xE9] = [0xC3, 0xA9] \<and>
   TextDecoder_decode [0xC3] @ TextDecoder_decode [0xA9] = [0xFFFD, 0xFFFD] \<and>
   TextDecoder_decode ([0xC3] @ [0xA9]) = [0xE9] \<and>
   concat [take 19 e_acute_stream, drop 19 e_acute_stream] = e_acute_stream \<and>
   handleSubmit (\<lambda>n. n)
     (\<lambda>_. Response True (Some (Body
        [Read True (take 19 e_acute_stream), Read True (drop 19 e_acute_stream)] None))) s0 =
     \<lparr>input = [],
      messages = [\<lparr>role = User, content = js ''hi''\<rparr>, \<lparr>role = Assistant, content = []\<rparr>],
      isTyping = False, currentTypingMessage = []\<rparr> \<and>
   handleSubmit (\<lambda>n. n)
     (\<lambda>_. Response True (Some (Body
        [Read False (take 19 e_acute_stream), Read False (drop 19 e_acute_stream)] None))) s0 =
     \<lparr>input = [],
      messages = [\<lparr>role = User, content = js ''hi''\<rparr>, \<lparr>role = Assistant, content = []\<rparr>],
      isTyping = False, currentTypingMessage = []\<rparr>\<close>
proof -
  have t: "trim (input s0) \<noteq> []"
    by (simp add: trim_hi js_def)
  have n: \<open>js ''{"content":"'' @ [0xFFFD] \<noteq> js ''[DONE]''\<close>
    by (simp add: js_def)
  have o: \<open>\<not> prefix (js ''data: '') (0xFFFD # js ''"}'')\<close>
    by (simp add: js_def)
  have a: "utf8_encode [0xE9] = [0xC3, 0xA9]"
    by (simp add: text_defs)
  have b: "TextDecoder_decode [0xC3] @ TextDecoder_decode [0xA9] = [0xFFFD, 0xFFFD]"
    by (simp add: text_defs)
  have c: "TextDecoder_decode ([0xC3] @ [0xA9]) = [0xE9]"
    by (simp add: text_defs)
  have x: "handleSubmit (\<lambda>n. n)
     (\<lambda>_. Response True (Some (Body
        [Read True (take 19 e_acute_stream), Read True (drop 19 e_acute_stream)] None))) s0 =
     \<lparr>input = [],
      messages = [\<lparr>role = User, content = js ''hi''\<rparr>, \<lparr>role = Assistant, content = []\<rparr>],
      isTyping = False, currentTypingMessage = []\<rparr>"
    unfolding handleSubmit_streaming [OF t] Let_def trim_hi
    by (simp add: cut_lines_1 cut_lines_2 for_lines_sentinel for_lines_blank for_lines_other [OF o]
          for_lines_broken [OF _ n] frame_content_def parse_cut s0_def shown_def render_def
          del: for_lines.simps(2))
  have y: "handleSubmit (\<lambda>n. n)
     (\<lambda>_. Response True (Some (Body
        [Read False (take 19 e_acute_stream), Read False (drop 19 e_acute_stream)] None))) s0 =
     \<lparr>input = [],
      messages = [\<lparr>role = User, content = js ''hi''\<rparr>, \<lparr>role = Assistant, content = []\<rparr>],
      isTyping = False, currentTypingMessage = []\<rparr>"
    unfolding handleSubmit_streaming [OF t] Let_def trim_hi
    by (simp add: cut_lines_1 cut_lines_2 for_lines_sentinel for_lines_blank for_lines_other [OF o]
          for_lines_broken [OF _ n] frame_content_def parse_cut s0_def shown_def
          del: for_lines.simps(2))
  from a b c x y show ?thesis by simp
qed

text \<open>
  C2, amended.  A read that holds the whole UTF-8 encoding of a text without lone
  surrogates, not starting with U+FEFF, decodes to exactly that text, multi-byte
  characters included: the round of the loop for that read processes the lines of the
  text.
\<close>

theorem decode_whole_chunk:
  assumes "well_formed s" and "\<not> prefix [0xFEFF] s"
  shows "TextDecoder_decode (utf8_encode s) = s \<and>
         read_loop nts st [Read r (utf8_encode s)] =
           for_lines nts (if r then render st else st) (split_blank s)"
proof -
  have "utf8_decode Start (utf8_encode s) = code_points s"
    unfolding utf8_encode_def by (rule utf8_decode_encode) (rule code_points_scalar [OF assms(1)])
  then have "TextDecoder_decode (utf8_encode s) = s"
    unfolding TextDecoder_decode_def no_bom [OF assms]
    by (simp add: utf16_code_points [OF assms(1)])
  then show ?thesis by simp
qed

theorem decode_whole_chunk_witness:
  "well_formed (sse_frame [0xE9, 0x4E2D, 0xD83D, 0xDE00]) \<and>
   \<not> prefix [0xFEFF] (sse_frame [0xE9, 0x4E2D, 0xD83D, 0xDE00]) \<and>
   TextDecoder_decode (utf8_encode (sse_frame [0xE9, 0x4E2D, 0xD83D, 0xDE00])) =
     sse_frame [0xE9, 0x4E2D, 0xD83D, 0xDE00]"
proof -
  have w: "well_formed (sse_frame [0xE9, 0x4E2D, 0xD83D, 0xDE00])"
    by (simp add: text_defs)
  have p: "\<not> prefix [0xFEFF] (sse_frame [0xE9, 0x4E2D, 0xD83D, 0xDE00])"
    by (simp add: text_defs)
  from w p decode_whole_chunk [OF w p, THEN conjunct1] show ?thesis by simp
qed

section \<open>Properties of the transport relay\<close>

lemma handler_streams:
  assumes "req_method req = js ''POST''"
    and "destructure (req_body req) (js ''messages'') = Some (JArray ms)"
    and "filter valid_message ms \<noteq> []"
  shows "handler create req =
     (case create (system_message # filter valid_message ms) of
        Refused m \<Rightarrow>
          \<lparr>response = Broken [], provider_calls = [system_message # filter valid_message ms]\<rparr>
      | Streaming chunks fails \<Rightarrow>
          (case fails of
             None \<Rightarrow>
               \<lparr>response = EventStream (map (\<lambda>c. sse_frame (chunk_content c)) chunks @ [done_frame]),
                provider_calls = [system_message # filter valid_message ms]\<rparr>
           | Some m \<Rightarrow>
               \<lparr>response = Broken (map (\<lambda>c. sse_frame (chunk_content c)) chunks),
                provider_calls = [system_message # filter valid_message ms]\<rparr>))"
proof -
  from assms(3) have "ms \<noteq> []" by auto
  with assms show ?thesis
    by (simp add: handler_def Let_def split: provider_result.splits option.splits)
qed

lemma post_x_method: "req_method post_x = js ''POST''"
  by (simp add: post_x_def)

lemma post_x_messages:
  "destructure (req_body post_x) (js ''messages'') = Some (JArray [JNull, blank_message, user_x])"
  by (simp add: post_x_def get_prop_def)

lemma valid_user_x: "valid_message user_x"
  by (simp add: user_x_def get_prop_def js_def trim_def is_space_def)

lemma invalid_blank: "\<not> valid_message blank_message"
  by (simp add: blank_message_def get_prop_def js_def trim_def is_space_def)

lemma post_x_valid: "filter valid_message [JNull, blank_message, user_x] = [user_x]"
  by (simp add: valid_user_x invalid_blank)


lemma post_blank_messages:
  "destructure (req_body post_blank) (js ''messages'') = Some (JArray [JNull, blank_message])"
  by (simp add: post_blank_def get_prop_def)



text \<open>
  C6, as stated, fails: a request that is not a POST is answered with status 405 whatever
  it carries, and a POST whose body is \<open>null\<close> throws before the \<open>try\<close>.
\<close>

theorem relay_rejects_counterexample:
  "response (handler (\<lambda>_. Streaming [] None)
      \<lparr>req_method = js ''GET'', req_body = JObject [(js ''messages'', JArray [])]\<rparr>) =
     Json 405 (JObject [(js ''message'',
       JString [0x53EA, 0x5141, 0x8BB8, 0x50, 0x4F, 0x53, 0x54, 0x8BF7, 0x6C42])]) \<and>
   response (handler (\<lambda>_. Streaming [] None) \<lparr>req_method = js ''POST'', req_body = JNull\<rparr>) =
     Unhandled"
  by (simp add: handler_def js_def)

text \<open>
  C6, amended.  When \<open>messages\<close> is not an array with at least one message of non-blank
  string content, the provider is never called; a POST whose body can be destructured is
  answered with status 500 and a payload \<open>{ message }\<close>, and a request that is not a POST
  with status 405 and a payload \<open>{ message }\<close>.
\<close>

theorem relay_rejects_invalid_conversation:
  assumes "\<forall>ms. destructure (req_body req) (js ''messages'') = Some (JArray ms) \<longrightarrow>
                filter valid_message ms = []"
  shows "provider_calls (handler create req) = [] \<and>
         (req_method req = js ''POST'' \<and> destructure (req_body req) (js ''messages'') \<noteq> None \<longrightarrow>
          (\<exists>m. response (handler create req) = Json 500 (JObject [(js ''message'', JString m)]))) \<and>
         (req_method req \<noteq> js ''POST'' \<longrightarrow>
          (\<exists>m. response (handler create req) = Json 405 (JObject [(js ''message'', JString m)])))"
proof (cases "req_method req = js ''POST''")
  case False
  then show ?thesis by (simp add: handler_def)
next
  case True
  show ?thesis
  proof (cases "destructure (req_body req) (js ''messages'')")
    case None
    with True show ?thesis by (simp add: handler_def)
  next
    case (Some v)
    show ?thesis
    proof (cases v)
      case (JArray ms)
      with Some assms have "filter valid_message ms = []" by simp
      with True Some JArray show ?thesis
        by (simp add: handler_def server_error_def Let_def)
    qed (use True Some in \<open>simp_all add: handler_def server_error_def\<close>)
  qed
qed

theorem relay_rejects_invalid_conversation_witness:
  "req_method post_blank = js ''POST'' \<and>
   destructure (req_body post_blank) (js ''messages'') = Some (JArray [JNull, blank_message]) \<and>
   filter valid_message [JNull, blank_message] = [] \<and>
   provider_calls (handler (\<lambda>_. Streaming [] None) post_blank) = [] \<and>
   (\<exists>m. response (handler (\<lambda>_. Streaming [] None) post_blank) =
        Json 500 (JObject [(js ''message'', JString m)]))"
proof -
  have m: "req_method post_blank = js ''POST''" by (simp add: post_blank_def)
  have f: "filter valid_message [JNull, blank_message] = []" by (simp add: invalid_blank)
  have "\<forall>ms. destructure (req_body post_blank) (js ''messages'') = Some (JArray ms) \<longrightarrow>
             filter valid_message ms = []"
    by (simp add: post_blank_messages invalid_blank)
  from relay_rejects_invalid_conversation [OF this, of "\<lambda>_. Streaming [] None"] m post_blank_messages
  show ?thesis by (simp add: invalid_blank)
qed

text \<open>
  C10.  Every chunk of the provider's stream is written as exactly one frame, in order,
  with its content or the empty string when the chunk has no choice, no delta or no
  content.  The frame for the empty string is \<^verbatim>\<open>data: {"content":""}\<close>; in the consumer
  its line appends nothing: the state is the one reached without the line, up to the
  displayed text, so the accumulator and the history are the same.
\<close>

theorem empty_delta_frames:
  \<open>(req_method req = js ''POST'' \<and>
    destructure (req_body req) (js ''messages'') = Some (JArray ms) \<and>
    filter valid_message ms \<noteq> [] \<and>
    create (system_message # filter valid_message ms) = Streaming chunks fails \<longrightarrow>
    frames_written (response (handler create req)) =
      map (\<lambda>c. sse_frame (chunk_content c)) chunks @
      (case fails of None \<Rightarrow> [done_frame] | Some m \<Rightarrow> [])) \<and>
   chunk_content (Chunk []) = [] \<and>
   chunk_content (Chunk (Choice None # cs)) = [] \<and>
   chunk_content (Chunk (Choice (Some (Delta None)) # cs)) = [] \<and>
   sse_frame [] = js ''data: {"content":""}'' @ [0x0A, 0x0A] \<and>
   split_blank (TextDecoder_decode (utf8_encode (sse_frame []))) = [js ''data: {"content":""}'', []] \<and>
   (\<exists>y. for_lines nts s (pre @ [js ''data: {"content":""}''] @ post) =
         (for_lines nts s (pre @ post))\<lparr>currentTypingMessage := y\<rparr>)\<close>
proof (intro conjI impI)
  assume a: "req_method req = js ''POST'' \<and>
    destructure (req_body req) (js ''messages'') = Some (JArray ms) \<and>
    filter valid_message ms \<noteq> [] \<and>
    create (system_message # filter valid_message ms) = Streaming chunks fails"
  then have "handler create req =
     (case create (system_message # filter valid_message ms) of
        Refused m \<Rightarrow>
          \<lparr>response = Broken [], provider_calls = [system_message # filter valid_message ms]\<rparr>
      | Streaming chunks fails \<Rightarrow>
          (case fails of
             None \<Rightarrow>
               \<lparr>response = EventStream (map (\<lambda>c. sse_frame (chunk_content c)) chunks @ [done_frame]),
                provider_calls = [system_message # filter valid_message ms]\<rparr>
           | Some m \<Rightarrow>
               \<lparr>response = Broken (map (\<lambda>c. sse_frame (chunk_content c)) chunks),
                provider_calls = [system_message # filter valid_message ms]\<rparr>))"
    by (intro handler_streams) simp_all
  with a show "frames_written (response (handler create req)) =
      map (\<lambda>c. sse_frame (chunk_content c)) chunks @
      (case fails of None \<Rightarrow> [done_frame] | Some m \<Rightarrow> [])"
    by (cases fails) simp_all
next
  show "chunk_content (Chunk []) = []" by simp
  show "chunk_content (Chunk (Choice None # cs)) = []" by simp
  show "chunk_content (Chunk (Choice (Some (Delta None)) # cs)) = []" by simp
  show e: \<open>sse_frame [] = js ''data: {"content":""}'' @ [0x0A, 0x0A]\<close>
    by (simp add: text_defs)
  show \<open>split_blank (TextDecoder_decode (utf8_encode (sse_frame []))) = [js ''data: {"content":""}'', []]\<close>
    by (simp add: text_defs)
  have p: \<open>js ''data: {"content":""}'' = js ''data: '' @ stringify_content []\<close>
    by (simp add: text_defs)
  show \<open>\<exists>y. for_lines nts s (pre @ [js ''data: {"content":""}''] @ post) =
         (for_lines nts s (pre @ post))\<lparr>currentTypingMessage := y\<rparr>\<close>
    unfolding p
    using for_lines_empty_frame [OF frame_content_string [OF parse_empty] stringify_not_sentinel,
        of nts s pre post]
    by simp
qed

theorem empty_delta_frames_witness:
  "req_method post_x = js ''POST'' \<and>
   destructure (req_body post_x) (js ''messages'') = Some (JArray [JNull, blank_message, user_x]) \<and>
   filter valid_message [JNull, blank_message, user_x] \<noteq> [] \<and>
   frames_written (response (handler
      (\<lambda>_. Streaming [Chunk [], Chunk [Choice (Some (Delta (Some (js ''hi''))))]] None) post_x)) =
     [sse_frame [], sse_frame (js ''hi''), done_frame]"
proof -
  have v: "filter valid_message [JNull, blank_message, user_x] \<noteq> []"
    by (simp add: valid_user_x invalid_blank)
  from empty_delta_frames
    [of post_x "[JNull, blank_message, user_x]"
        "\<lambda>_. Streaming [Chunk [], Chunk [Choice (Some (Delta (Some (js ''hi''))))]] None"
        "[Chunk [], Chunk [Choice (Some (Delta (Some (js ''hi''))))]]" None]
    post_x_method post_x_messages
  have "frames_written (response (handler
      (\<lambda>_. Streaming [Chunk [], Chunk [Choice (Some (Delta (Some (js ''hi''))))]] None) post_x)) =
     map (\<lambda>c. sse_frame (chunk_content c)) [Chunk [], Chunk [Choice (Some (Delta (Some (js ''hi''))))]] @
     [done_frame]"
    by (simp add: valid_user_x invalid_blank)
  with post_x_method post_x_messages show ?thesis by (simp add: valid_user_x invalid_blank)
qed

end
